theory Spec2Isabelle
  imports Complex_Main
begin

section \<open>The CSV splitter: data model\<close>

text \<open>
  The repository holds two programs: the configurable splitter (type \<open>CSVSplitter\<close> with
  its method \<open>Split\<close>) and an older, minimal one (function \<open>splitCSV\<close>). Both read a CSV
  file through \<open>encoding/csv\<close>, copy the header into every output file and start a new
  output file whenever the current one holds the configured number of records.

  Go strings are byte sequences: \<open>string\<close> (a list of 8-bit \<open>char\<close>) models them, and
  \<open>length\<close> is Go's \<open>len\<close>. A \<open>rune\<close> is a code point, an integer. The counters of the
  program (\<open>partNumber\<close>, \<open>recordCount\<close>, \<open>totalRecords\<close>) are Go \<open>int\<close>s that start at 0
  or 1 and are only ever incremented; they are modelled as \<open>nat\<close>. A 64-bit counter does
  not wrap before \<open>2^63\<close> records have been read, which no input file reaches.
  \<open>MaxRecords\<close> and \<open>BufferSize\<close> come from the command line and may be negative: they
  are \<open>int\<close>.
\<close>

type_synonym rune = int

text \<open>A CSV record, Go's \<open>[]string\<close>.\<close>

type_synonym fields = "string list"

record Config =
  InputPath :: string
  OutputPrefix :: string
  OutputDir :: string
  MaxRecords :: int
  BufferSize :: int
  SkipEmpty :: bool
  Delimiter :: rune
  Verbose :: bool

text \<open>
  The path of an output file: \<open>OutPath dir prefix n\<close> stands for
  \<open>filepath.Join(dir, fmt.Sprintf("%s_%d.csv", prefix, n))\<close>.
\<close>

datatype path = OutPath string string nat

text \<open>
  A \<open>csv.Writer\<close>: its field separator and the file it writes to. Every line it writes
  is kept in the file together with the separator it was written with.
\<close>

record Writer =
  wComma :: rune
  dest :: path

type_synonym line = "rune \<times> fields"

record CSVSplitter =
  config :: Config
  partNumber :: nat
  writer :: "Writer option"
  outFile :: "path option"

text \<open>The errors of the underlying library and operating-system calls.\<close>

datatype cause =
    EOF
  | ErrBareQuote
  | ErrQuote
  | ErrFieldCount
  | ErrInvalidDelim
  | ErrClosed
  | OSError string

text \<open>
  What one call of \<open>reader.Read()\<close> delivers before \<open>io.EOF\<close>: a record, or an error.
\<close>

datatype read_result = Record fields | Failed cause

text \<open>
  The options of a \<open>csv.Reader\<close> that the program sets. An input file is modelled by
  what a reader with given options delivers on successive calls of \<open>Read\<close>, up to
  \<open>io.EOF\<close>: the end of the list.
\<close>

record Reader =
  Comma :: rune
  LazyQuotes :: bool
  TrimLeadingSpace :: bool

type_synonym csv_file = "Reader \<Rightarrow> read_result list"

text \<open>
  The errors \<open>Split\<close> returns, one constructor for each \<open>fmt.Errorf\<close> of the source
  (\<open>EmptyInputError\<close> is "input file is empty", \<open>EmptyHeaderError\<close> "header is empty"), and
  the panic of a call through a nil writer.
\<close>

datatype error =
    InputOpenError string cause
  | EmptyInputError
  | HeaderReadError cause
  | EmptyHeaderError
  | RecordReadError nat cause
  | OutputCreateError path cause
  | HeaderWriteError path cause
  | RecordWriteError nat cause
  | NilWriterPanic

text \<open>The progress messages printed when \<open>Verbose\<close> is set.\<close>

datatype msg =
    StartMsg string
  | MaxRecordsMsg int
  | CreatedMsg path
  | ProcessedMsg nat

text \<open>
  The environment of a run: which input files can be opened and what they hold, and
  which calls of \<open>os.Create\<close> and of \<open>Write\<close> fail. A write is identified by the file
  and by the number of lines the file already holds. The input is read apart from the
  output files: a run whose input path is one of its own output paths is not modelled.
\<close>

record Env =
  os_Open :: "string \<Rightarrow> cause + csv_file"
  os_Create :: "path \<Rightarrow> cause option"
  write_error :: "path \<Rightarrow> nat \<Rightarrow> cause option"

text \<open>The mutable world: the output directory and the standard output.\<close>

record World =
  files :: "path \<Rightarrow> line list option"
  stdout :: "msg list"

section \<open>The configurable splitter\<close>

definition NewCSVSplitter :: "Config \<Rightarrow> CSVSplitter" where
  "NewCSVSplitter cfg = \<lparr>config = cfg, partNumber = 1, writer = None, outFile = None\<rparr>"

definition Printf :: "bool \<Rightarrow> msg \<Rightarrow> World \<Rightarrow> World" where
  "Printf verbose m w = (if verbose then w\<lparr>stdout := stdout w @ [m]\<rparr> else w)"

definition openInputFile :: "Env \<Rightarrow> CSVSplitter \<Rightarrow> error + csv_file" where
  "openInputFile env s =
     (case os_Open env (InputPath (config s)) of
        Inl e \<Rightarrow> Inl (InputOpenError (InputPath (config s)) e)
      | Inr file \<Rightarrow> Inr file)"

definition NewReader :: Reader where
  "NewReader = \<lparr>Comma = 44, LazyQuotes = False, TrimLeadingSpace = False\<rparr>"

definition createReader :: "CSVSplitter \<Rightarrow> Reader" where
  "createReader s =
     NewReader\<lparr>Comma := Delimiter (config s), LazyQuotes := True, TrimLeadingSpace := True\<rparr>"

text \<open>\<open>readHeader\<close> consumes the first result of the reader and returns the rest with it.\<close>

fun readHeader :: "read_result list \<Rightarrow> error + (fields \<times> read_result list)" where
  "readHeader [] = Inl EmptyInputError"
| "readHeader (Failed e # rest) = Inl (HeaderReadError e)"
| "readHeader (Record header # rest) =
     (if length header = 0 then Inl EmptyHeaderError else Inr (header, rest))"

fun isEmptyRecord :: "fields \<Rightarrow> bool" where
  "isEmptyRecord [] = True"
| "isEmptyRecord (field # rest) = (if field \<noteq> [] then False else isEmptyRecord rest)"

text \<open>
  \<open>closeCurrentFile\<close> flushes the writer and closes the file. The model of this section
  writes through (see \<open>Writer_Write\<close>), so only the two handles change.
\<close>

definition closeCurrentFile :: "CSVSplitter \<Rightarrow> CSVSplitter" where
  "closeCurrentFile s =
     (let s1 = (if writer s \<noteq> None then s\<lparr>writer := None\<rparr> else s)
      in if outFile s1 \<noteq> None then s1\<lparr>outFile := None\<rparr> else s1)"

text \<open>
  \<open>csv.Writer.Write\<close>: the record goes to the end of the writer's file, written with the
  writer's separator. The library buffers the bytes until \<open>Flush\<close>; every return path
  of \<open>Split\<close> after the first file is open runs \<open>closeCurrentFile\<close>, which flushes, so
  the model appends at once. This is what a run leaves behind when the device accepts
  every write; \<open>write_error\<close> says which calls of \<open>Write\<close> return an error. When the
  library makes a call return one, and what becomes of a write the device refuses, is
  the subject of the section on the buffered writer.
\<close>

definition Writer_Write :: "Env \<Rightarrow> Writer \<Rightarrow> fields \<Rightarrow> World \<Rightarrow> cause option \<times> World" where
  "Writer_Write env w rec wld =
     (case files wld (dest w) of
        None \<Rightarrow> (Some ErrClosed, wld)
      | Some ls \<Rightarrow>
          (case write_error env (dest w) (length ls) of
             Some e \<Rightarrow> (Some e, wld)
           | None \<Rightarrow> (None, wld\<lparr>files := (files wld)(dest w \<mapsto> ls @ [(wComma w, rec)])\<rparr>)))"

definition createNewFile ::
  "Env \<Rightarrow> fields \<Rightarrow> CSVSplitter \<Rightarrow> World \<Rightarrow> error option \<times> CSVSplitter \<times> World" where
  "createNewFile env header s wld =
     (let s1 = closeCurrentFile s;
          filepath = OutPath (OutputDir (config s1)) (OutputPrefix (config s1)) (partNumber s1)
      in case os_Create env filepath of
           Some e \<Rightarrow> (Some (OutputCreateError filepath e), s1, wld)
         | None \<Rightarrow>
             (let wld1 = wld\<lparr>files := (files wld)(filepath \<mapsto> [])\<rparr>;
                  w = \<lparr>wComma = Delimiter (config s1), dest = filepath\<rparr>;
                  s2 = s1\<lparr>outFile := Some filepath, writer := Some w\<rparr>
              in case Writer_Write env w header wld1 of
                   (Some e, wld2) \<Rightarrow>
                     (Some (HeaderWriteError filepath e), closeCurrentFile s2, wld2)
                 | (None, wld2) \<Rightarrow>
                     (None, s2\<lparr>partNumber := partNumber s2 + 1\<rparr>,
                      Printf (Verbose (config s2)) (CreatedMsg filepath) wld2)))"

text \<open>
  The local state of \<open>Split\<close> inside its loop: the splitter, the world and the two
  counters.
\<close>

record Run =
  spl :: CSVSplitter
  world :: World
  recordCount :: nat
  totalRecords :: nat

text \<open>
  One pass through the body of the loop, for a record the reader delivered:
  \<open>Inl\<close> is a \<open>return err\<close>, \<open>Inr\<close> the state at the end of the pass (also after
  \<open>continue\<close>). Calling \<open>Write\<close> on a nil writer would panic.
\<close>

definition loop_body :: "Env \<Rightarrow> fields \<Rightarrow> fields \<Rightarrow> Run \<Rightarrow> (error \<times> Run) + Run" where
  "loop_body env header rec st =
     (let st1 = st\<lparr>totalRecords := totalRecords st + 1\<rparr>;
          cfg = config (spl st1)
      in if SkipEmpty cfg \<and> isEmptyRecord rec then Inr st1
         else
           (case (if int (recordCount st1) \<ge> MaxRecords cfg
                  then (case createNewFile env header (spl st1) (world st1) of
                          (Some e, s', w') \<Rightarrow> Inl (e, st1\<lparr>spl := s', world := w'\<rparr>)
                        | (None, s', w') \<Rightarrow>
                            Inr (st1\<lparr>spl := s', world := w', recordCount := 0\<rparr>))
                  else Inr st1) of
              Inl err \<Rightarrow> Inl err
            | Inr st2 \<Rightarrow>
                (case writer (spl st2) of
                   None \<Rightarrow> Inl (NilWriterPanic, st2)
                 | Some w \<Rightarrow>
                     (case Writer_Write env w rec (world st2) of
                        (Some e, w') \<Rightarrow>
                          Inl (RecordWriteError (totalRecords st2 + 1) e, st2\<lparr>world := w'\<rparr>)
                      | (None, w') \<Rightarrow>
                          Inr (st2\<lparr>world := w', recordCount := recordCount st2 + 1\<rparr>)))))"

text \<open>
  The loop \<open>for { record, err := reader.Read() ... }\<close>, by recursion on what the reader
  still has to deliver: the end of the list is \<open>io.EOF\<close>.
\<close>

fun records_loop :: "Env \<Rightarrow> fields \<Rightarrow> read_result list \<Rightarrow> Run \<Rightarrow> error option \<times> Run" where
  "records_loop env header [] st = (None, st)"
| "records_loop env header (Failed e # rest) st =
     (Some (RecordReadError (totalRecords st + 2) e), st)"
| "records_loop env header (Record rec # rest) st =
     (case loop_body env header rec st of
        Inl (err, st') \<Rightarrow> (Some err, st')
      | Inr st' \<Rightarrow> records_loop env header rest st')"

text \<open>
  \<open>Split\<close> returns its error (\<open>None\<close> is Go's \<open>nil\<close>), the splitter and the world it
  leaves behind. The deferred \<open>closeCurrentFile\<close> runs on every return after the first
  output file was created.
\<close>

definition Split :: "Env \<Rightarrow> CSVSplitter \<Rightarrow> World \<Rightarrow> error option \<times> CSVSplitter \<times> World" where
  "Split env s wld =
     (case openInputFile env s of
        Inl e \<Rightarrow> (Some e, s, wld)
      | Inr file \<Rightarrow>
          (case readHeader (file (createReader s)) of
             Inl e \<Rightarrow> (Some e, s, wld)
           | Inr (header, rest) \<Rightarrow>
               (let v = Verbose (config s);
                    wld1 = Printf v (MaxRecordsMsg (MaxRecords (config s)))
                             (Printf v (StartMsg (InputPath (config s))) wld)
                in case createNewFile env header s wld1 of
                     (Some e, s1, wld2) \<Rightarrow> (Some e, s1, wld2)
                   | (None, s1, wld2) \<Rightarrow>
                       (case records_loop env header rest
                               \<lparr>spl = s1, world = wld2, recordCount = 0, totalRecords = 0\<rparr> of
                          (Some e, st) \<Rightarrow> (Some e, closeCurrentFile (spl st), world st)
                        | (None, st) \<Rightarrow>
                            (None, closeCurrentFile (spl st),
                             Printf (Verbose (config (spl st)))
                               (ProcessedMsg (totalRecords st)) (world st))))))"

section \<open>What a run leaves behind\<close>

text \<open>
  The path of part \<open>i\<close>, the records of the file at that path, and the parts of a run:
  the files numbered \<open>1\<close> to \<open>partNumber - 1\<close>, the number \<open>main\<close> reports as created.
\<close>

definition part_path :: "Config \<Rightarrow> nat \<Rightarrow> path" where
  "part_path cfg i = OutPath (OutputDir cfg) (OutputPrefix cfg) i"

definition part_records :: "Config \<Rightarrow> World \<Rightarrow> nat \<Rightarrow> fields list" where
  "part_records cfg w i = (case files w (part_path cfg i) of None \<Rightarrow> [] | Some ls \<Rightarrow> map snd ls)"

definition output_parts :: "Config \<Rightarrow> CSVSplitter \<Rightarrow> World \<Rightarrow> fields list list" where
  "output_parts cfg s w = map (part_records cfg w) [1..<partNumber s]"

definition files_hold :: "Config \<Rightarrow> World \<Rightarrow> fields list list \<Rightarrow> bool" where
  "files_hold cfg w ps \<longleftrightarrow>
     (\<forall>i < length ps. files w (part_path cfg (Suc i)) = Some (map (Pair (Delimiter cfg)) (ps ! i)))"

definition holds :: "Config \<Rightarrow> Run \<Rightarrow> fields list list \<Rightarrow> bool" where
  "holds cfg st ps \<longleftrightarrow>
     config (spl st) = cfg \<and> ps \<noteq> [] \<and> partNumber (spl st) = length ps + 1 \<and>
     writer (spl st) = Some \<lparr>wComma = Delimiter cfg, dest = part_path cfg (length ps)\<rparr> \<and>
     files_hold cfg (world st) ps \<and>
     Suc (recordCount st) = length (last ps)"

definition step :: "int \<Rightarrow> fields \<Rightarrow> fields list list \<Rightarrow> fields \<Rightarrow> fields list list" where
  "step L h ps r =
     (if L \<le> int (length (last ps)) - 1 then ps @ [[h, r]]
      else ps[length ps - 1 := last ps @ [r]])"

text \<open>
  A run of the program: \<open>NewCSVSplitter(config).Split()\<close>. \<open>run_error\<close> is the error it
  returns and \<open>run_parts\<close> the records of the parts it leaves, in part order.
\<close>

definition run_error :: "Env \<Rightarrow> Config \<Rightarrow> World \<Rightarrow> error option" where
  "run_error env cfg w = fst (Split env (NewCSVSplitter cfg) w)"

definition run_parts :: "Env \<Rightarrow> Config \<Rightarrow> World \<Rightarrow> fields list list" where
  "run_parts env cfg w =
     (case Split env (NewCSVSplitter cfg) w of (e, s', w') \<Rightarrow> output_parts cfg s' w')"

text \<open>
  The data records of an input, the records that \<open>skip-empty\<close> lets through, and the
  parts the loop builds from them, one record at a time: \<open>step\<close> starts a new part
  when the last one holds \<open>L\<close> data records after its header.
\<close>

fun records_of :: "read_result list \<Rightarrow> fields list" where
  "records_of [] = []"
| "records_of (Record r # rest) = r # records_of rest"
| "records_of (Failed e # rest) = records_of rest"

definition kept :: "Config \<Rightarrow> fields list \<Rightarrow> fields list" where
  "kept cfg rs = filter (\<lambda>r. \<not> (SkipEmpty cfg \<and> isEmptyRecord r)) rs"

definition pack :: "int \<Rightarrow> fields \<Rightarrow> fields list list \<Rightarrow> fields list \<Rightarrow> fields list list" where
  "pack L h ps rs = foldl (step L h) ps rs"

definition heads :: "fields \<Rightarrow> fields list list \<Rightarrow> bool" where
  "heads h ps \<longleftrightarrow> (\<forall>p \<in> set ps. p \<noteq> [] \<and> hd p = h)"

definition packed :: "nat \<Rightarrow> fields list list \<Rightarrow> bool" where
  "packed l ps \<longleftrightarrow>
     (\<exists>qs p. ps = qs @ [p] \<and> (\<forall>q \<in> set qs. length q = Suc l) \<and>
        1 \<le> length p \<and> length p \<le> Suc l \<and> (length p = 1 \<longrightarrow> qs = []))"

text \<open>Sample inputs: a configuration, an environment without failures, an empty directory.\<close>

definition sample_cfg :: "int \<Rightarrow> bool \<Rightarrow> Config" where
  "sample_cfg L skip =
     \<lparr>InputPath = ''in.csv'', OutputPrefix = ''out'', OutputDir = ''.'', MaxRecords = L,
      BufferSize = 65536, SkipEmpty = skip, Delimiter = 44, Verbose = False\<rparr>"

definition sample_env :: "read_result list \<Rightarrow> Env" where
  "sample_env rs =
     \<lparr>os_Open = (\<lambda>p. Inr (\<lambda>rd. rs)), os_Create = (\<lambda>p. None), write_error = (\<lambda>p n. None)\<rparr>"

definition no_files :: World where
  "no_files = \<lparr>files = (\<lambda>p. None), stdout = []\<rparr>"

definition people :: "read_result list" where
  "people = [Record [''name'', ''age''], Record [''Alice'', ''30''], Record [''Bob'', ''25''],
             Record [''Carol'', ''40'']]"

definition blank_row :: "read_result list" where
  "blank_row = [Record [''name'', ''age''], Record [[], []]]"

definition blank_then_bob :: "read_result list" where
  "blank_then_bob = [Record [''name'', ''age''], Record [[], []], Record [''Bob'', ''25'']]"

definition only_bob :: "read_result list" where
  "only_bob = [Record [''name'', ''age''], Record [''Bob'', ''25'']]"


definition blank_then_bad :: "read_result list" where
  "blank_then_bad = [Record [''name'', ''age''], Record [[], []], Record [''Bob'', ''25''],
                     Failed ErrFieldCount]"

section \<open>The loop keeps the files in step with the parts\<close>

lemma part_path_inj [simp]: "part_path cfg i = part_path cfg j \<longleftrightarrow> i = j"
  by (simp add: part_path_def)

lemma closeCurrentFile_simps [simp]:
  "config (closeCurrentFile s) = config s"
  "partNumber (closeCurrentFile s) = partNumber s"
  "writer (closeCurrentFile s) = None"
  "outFile (closeCurrentFile s) = None"
  by (simp_all add: closeCurrentFile_def Let_def)

lemma files_hold_append:
  assumes "files_hold cfg w ps"
  shows "files_hold cfg (w\<lparr>files := (files w)(part_path cfg (Suc (length ps)) \<mapsto> map (Pair (Delimiter cfg)) p)\<rparr>) (ps @ [p])"
  using assms by (auto simp: files_hold_def nth_append less_Suc_eq)

lemma files_hold_update:
  assumes "files_hold cfg w ps" "ps \<noteq> []"
  shows "files_hold cfg (w\<lparr>files := (files w)(part_path cfg (length ps) \<mapsto> map (Pair (Delimiter cfg)) p)\<rparr>) (ps[length ps - 1 := p])"
  using assms by (cases ps rule: rev_cases) (auto simp: files_hold_def nth_append nth_list_update)

lemma files_hold_stdout [simp]:
  "files_hold cfg (Printf v m w) ps = files_hold cfg w ps"
  by (simp add: files_hold_def Printf_def)

lemma createNewFile_ok:
  assumes "createNewFile env h s w = (None, s', w')"
    and "config s = cfg" and "partNumber s = length ps + 1" and "files_hold cfg w ps"
  shows "config s' = cfg \<and> partNumber s' = length ps + 2 \<and>
         writer s' = Some \<lparr>wComma = Delimiter cfg, dest = part_path cfg (length ps + 1)\<rparr> \<and>
         files_hold cfg w' (ps @ [[h]])"
proof -
  let ?p = "part_path cfg (Suc (length ps))"
  from assms(1,2,3) have c: "os_Create env ?p = None"
    by (auto simp: createNewFile_def Let_def part_path_def split: option.splits)
  from assms(1,2,3) c have wr: "write_error env ?p 0 = None"
    by (auto simp: createNewFile_def Let_def part_path_def Writer_Write_def split: option.splits prod.splits)
  from assms(1,2,3) c wr have s': "s' = (closeCurrentFile s)\<lparr>outFile := Some ?p,
        writer := Some \<lparr>wComma = Delimiter cfg, dest = ?p\<rparr>, partNumber := length ps + 2\<rparr>"
    and w': "w' = Printf (Verbose cfg) (CreatedMsg ?p)
         (w\<lparr>files := (files w)(?p \<mapsto> map (Pair (Delimiter cfg)) [h])\<rparr>)"
    by (auto simp: createNewFile_def Let_def part_path_def Writer_Write_def split: option.splits prod.splits)
  show ?thesis using files_hold_append[OF assms(4), of "[h]"] assms(2) by (simp add: s' w')
qed

lemma Writer_Write_ok:
  assumes "Writer_Write env \<lparr>wComma = d, dest = p\<rparr> r w = (None, w')" "files w p = Some ls"
  shows "w' = w\<lparr>files := (files w)(p \<mapsto> ls @ [(d, r)])\<rparr>"
  using assms by (auto simp: Writer_Write_def split: option.splits)

lemma holds_write:
  assumes "config (spl st) = cfg" "ps \<noteq> []" "partNumber (spl st) = length ps + 1"
    "writer (spl st) = Some \<lparr>wComma = Delimiter cfg, dest = part_path cfg (length ps)\<rparr>"
    "files_hold cfg (world st) ps"
    "Writer_Write env \<lparr>wComma = Delimiter cfg, dest = part_path cfg (length ps)\<rparr> r (world st) = (None, w')"
    "Suc c = length (last ps)"
  shows "holds cfg (st\<lparr>world := w', recordCount := c + 1\<rparr>) (ps[length ps - 1 := last ps @ [r]])"
proof -
  from assms(2) obtain n where n: "length ps = Suc n" by (cases ps) auto
  have l: "last ps = ps ! n" using assms(2) n by (simp add: last_conv_nth)
  from assms(5) n have f: "files (world st) (part_path cfg (length ps)) = Some (map (Pair (Delimiter cfg)) (last ps))"
    by (simp add: files_hold_def l)
  note w' = Writer_Write_ok[OF assms(6) f]
  have "files_hold cfg w' (ps[length ps - 1 := last ps @ [r]])"
    using files_hold_update[OF assms(5,2), of "last ps @ [r]"] by (simp add: w')
  moreover have "last (ps[length ps - 1 := last ps @ [r]]) = last ps @ [r]"
    using assms(2) n by (simp add: last_conv_nth)
  ultimately show ?thesis using assms(1-4,7) by (simp add: holds_def)
qed

lemma loop_body_holds:
  assumes "holds cfg st ps" "loop_body env h r st = Inr st'"
  shows "holds cfg st' (if SkipEmpty cfg \<and> isEmptyRecord r then ps else step (MaxRecords cfg) h ps r)"
proof (cases "SkipEmpty cfg \<and> isEmptyRecord r")
  case True
  with assms show ?thesis by (auto simp: loop_body_def holds_def Let_def)
next
  case False
  note skip = this
  then have tgt: "(if SkipEmpty cfg \<and> isEmptyRecord r then ps else step (MaxRecords cfg) h ps r)
      = step (MaxRecords cfg) h ps r" by (rule if_not_P)
  from assms(1) have cfg: "config (spl st) = cfg" and ne: "ps \<noteq> []"
    and pn: "partNumber (spl st) = length ps + 1"
    and wr: "writer (spl st) = Some \<lparr>wComma = Delimiter cfg, dest = part_path cfg (length ps)\<rparr>"
    and fh: "files_hold cfg (world st) ps" and rc: "Suc (recordCount st) = length (last ps)"
    by (simp_all add: holds_def)
  show ?thesis
  proof (cases "MaxRecords cfg \<le> int (recordCount st)")
    case True
    then have L: "MaxRecords cfg \<le> int (length (last ps)) - 1" using rc by linarith
    from assms(2) skip True cfg obtain s1 w1 where
      cr: "createNewFile env h (spl st) (world st) = (None, s1, w1)"
      by (auto simp: loop_body_def Let_def split: prod.splits option.splits sum.splits)
    note ok = createNewFile_ok[OF cr cfg pn fh]
    let ?st2 = "st\<lparr>totalRecords := totalRecords st + 1, spl := s1, world := w1, recordCount := 0\<rparr>"
    let ?ps2 = "ps @ [[h]]"
    from assms(2) skip True cfg cr ok obtain w' where
      ww: "Writer_Write env \<lparr>wComma = Delimiter cfg, dest = part_path cfg (length ?ps2)\<rparr> r w1 = (None, w')"
      and st': "st' = ?st2\<lparr>world := w', recordCount := 1\<rparr>"
      by (auto simp: loop_body_def Let_def split: prod.splits option.splits sum.splits)
    have "holds cfg (?st2\<lparr>world := w', recordCount := 0 + 1\<rparr>)
            (?ps2[length ?ps2 - 1 := last ?ps2 @ [r]])"
      by (rule holds_write) (use ok ww in simp_all)
    then show ?thesis unfolding tgt using L by (simp add: st' step_def)
  next
    case False
    then have L: "\<not> MaxRecords cfg \<le> int (length (last ps)) - 1" using rc by linarith
    let ?st2 = "st\<lparr>totalRecords := totalRecords st + 1\<rparr>"
    from assms(2) skip False cfg wr obtain w' where
      ww: "Writer_Write env \<lparr>wComma = Delimiter cfg, dest = part_path cfg (length ps)\<rparr> r (world st) = (None, w')"
      and st': "st' = ?st2\<lparr>world := w', recordCount := recordCount st + 1\<rparr>"
      by (auto simp: loop_body_def Let_def split: prod.splits option.splits sum.splits)
    have "holds cfg (?st2\<lparr>world := w', recordCount := recordCount st + 1\<rparr>)
            (ps[length ps - 1 := last ps @ [r]])"
      by (rule holds_write) (use cfg ne pn wr fh ww rc in simp_all)
    then show ?thesis unfolding tgt using L by (simp add: st' step_def)
  qed
qed

lemma records_of_map [simp]: "records_of (map Record rs) = rs"
  by (induction rs) auto

lemma records_loop_holds:
  assumes "holds cfg st ps" "records_loop env h rs st = (None, st')"
  shows "holds cfg st' (pack (MaxRecords cfg) h ps (kept cfg (records_of rs))) \<and>
         totalRecords st' = totalRecords st + length rs \<and> rs = map Record (records_of rs)"
  using assms
proof (induction rs arbitrary: st ps)
  case Nil
  then show ?case by (simp add: pack_def kept_def)
next
  case (Cons x rs)
  show ?case
  proof (cases x)
    case (Failed e)
    with Cons.prems show ?thesis by simp
  next
    case (Record r)
    with Cons.prems(2) obtain st1 where b: "loop_body env h r st = Inr st1"
      and l: "records_loop env h rs st1 = (None, st')"
      by (auto split: sum.splits prod.splits)
    from loop_body_holds[OF Cons.prems(1) b] have
      h1: "holds cfg st1 (if SkipEmpty cfg \<and> isEmptyRecord r then ps else step (MaxRecords cfg) h ps r)" .
    have t1: "totalRecords st1 = totalRecords st + 1"
      using b by (auto simp: loop_body_def Let_def split: if_splits prod.splits option.splits sum.splits)
    from Cons.IH[OF h1 l] t1 show ?thesis
      by (auto simp: Record pack_def kept_def)
  qed
qed

lemma part_records_Printf [simp]: "part_records cfg (Printf v m w) = part_records cfg w"
  by (rule ext) (simp add: part_records_def Printf_def)

lemma holds_output_parts:
  assumes "holds cfg st ps" "partNumber s = partNumber (spl st)"
  shows "output_parts cfg s (world st) = ps"
proof -
  have pn: "partNumber s = Suc (length ps)" using assms by (simp add: holds_def)
  have len: "length (output_parts cfg s (world st)) = length ps"
    unfolding output_parts_def pn by (simp del: upt_Suc)
  have "output_parts cfg s (world st) ! i = ps ! i" if i: "i < length ps" for i
  proof -
    from i have "files (world st) (part_path cfg (Suc i)) = Some (map (Pair (Delimiter cfg)) (ps ! i))"
      using assms(1) by (simp add: holds_def files_hold_def)
    then show ?thesis
      unfolding output_parts_def pn using i
      by (simp add: part_records_def comp_def del: upt_Suc)
  qed
  with len show ?thesis by (simp add: nth_equalityI)
qed

lemma Split_parts:
  assumes "Split env (NewCSVSplitter cfg) w = (None, s', w')"
  shows "\<exists>f h rs. os_Open env (InputPath cfg) = Inr f \<and>
           f (createReader (NewCSVSplitter cfg)) = Record h # map Record rs \<and> h \<noteq> [] \<and>
           output_parts cfg s' w' = pack (MaxRecords cfg) h [[h]] (kept cfg rs)"
proof -
  let ?s = "NewCSVSplitter cfg"
  from assms obtain f where o: "os_Open env (InputPath cfg) = Inr f"
    by (auto simp: Split_def openInputFile_def NewCSVSplitter_def split: sum.splits)
  then have oi: "openInputFile env ?s = Inr f"
    by (simp add: openInputFile_def NewCSVSplitter_def)
  from assms oi obtain h rest where rh: "readHeader (f (createReader ?s)) = Inr (h, rest)"
    by (auto simp: Split_def split: sum.splits)
  then have c: "f (createReader ?s) = Record h # rest" and hne: "h \<noteq> []"
    by (cases "f (createReader ?s)" rule: readHeader.cases; auto split: if_splits)+
  let ?w1 = "Printf (Verbose cfg) (MaxRecordsMsg (MaxRecords cfg))
               (Printf (Verbose cfg) (StartMsg (InputPath cfg)) w)"
  from assms oi rh obtain s1 w2 where cr: "createNewFile env h ?s ?w1 = (None, s1, w2)"
    by (auto simp: Split_def Let_def NewCSVSplitter_def split: sum.splits prod.splits option.splits)
  let ?st0 = "\<lparr>spl = s1, world = w2, recordCount = 0, totalRecords = 0\<rparr>"
  from assms oi rh cr obtain st where l: "records_loop env h rest ?st0 = (None, st)"
    and s': "s' = closeCurrentFile (spl st)"
    and w': "w' = Printf (Verbose (config (spl st))) (ProcessedMsg (totalRecords st)) (world st)"
    by (auto simp: Split_def Let_def NewCSVSplitter_def split: sum.splits prod.splits option.splits)
  have "config s1 = cfg \<and> partNumber s1 = length ([]::fields list list) + 2 \<and>
         writer s1 = Some \<lparr>wComma = Delimiter cfg, dest = part_path cfg (length ([]::fields list list) + 1)\<rparr> \<and>
         files_hold cfg w2 ([] @ [[h]])"
    by (rule createNewFile_ok[OF cr]) (simp_all add: NewCSVSplitter_def files_hold_def)
  then have h0: "holds cfg ?st0 [[h]]" by (simp add: holds_def)
  from records_loop_holds[OF h0 l] have
    hs: "holds cfg st (pack (MaxRecords cfg) h [[h]] (kept cfg (records_of rest)))"
    and rest: "rest = map Record (records_of rest)" by simp_all
  have "output_parts cfg s' (world st) = pack (MaxRecords cfg) h [[h]] (kept cfg (records_of rest))"
    by (rule holds_output_parts[OF hs]) (simp add: s')
  then have "output_parts cfg s' w' = pack (MaxRecords cfg) h [[h]] (kept cfg (records_of rest))"
    by (simp add: w' output_parts_def)
  with o c hne rest show ?thesis by metis
qed

lemma step_snoc:
  "step L h (qs @ [p]) r =
     (if L \<le> int (length p) - 1 then qs @ [p, [h, r]] else qs @ [p @ [r]])"
  by (simp add: step_def)

lemma step_heads:
  assumes "ps \<noteq> []" "heads h ps"
  shows "step L h ps r \<noteq> [] \<and> heads h (step L h ps r) \<and>
         concat (map tl (step L h ps r)) = concat (map tl ps) @ [r]"
proof -
  from assms(1) obtain qs p where ps: "ps = qs @ [p]" by (cases ps rule: rev_cases) auto
  with assms(2) have "p \<noteq> []" by (simp add: heads_def)
  with assms(2) show ?thesis unfolding ps step_snoc by (auto simp: heads_def)
qed

lemma pack_heads:
  assumes "ps \<noteq> []" "heads h ps"
  shows "pack L h ps rs \<noteq> [] \<and> heads h (pack L h ps rs) \<and>
         concat (map tl (pack L h ps rs)) = concat (map tl ps) @ rs"
  using assms
proof (induction rs arbitrary: ps)
  case Nil
  then show ?case by (simp add: pack_def)
next
  case (Cons r rs)
  from step_heads[OF Cons.prems] Cons.IH[of "step L h ps r"]
  show ?case by (simp add: pack_def)
qed

lemma step_packed:
  assumes "0 < L" "packed (nat L) ps"
  shows "packed (nat L) (step L h ps r)"
proof -
  from assms(2) obtain qs p where ps: "ps = qs @ [p]"
    and qs: "\<forall>q \<in> set qs. length q = Suc (nat L)"
    and p: "1 \<le> length p" "length p \<le> Suc (nat L)" "length p = 1 \<longrightarrow> qs = []"
    by (auto simp: packed_def)
  show ?thesis
  proof (cases "L \<le> int (length p) - 1")
    case True
    with p assms(1) have "length p = Suc (nat L)" by linarith
    with qs assms(1) have "\<forall>q \<in> set (qs @ [p]). length q = Suc (nat L)" "length [h, r] \<le> Suc (nat L)"
      by auto
    then have "packed (nat L) ((qs @ [p]) @ [[h, r]])"
      unfolding packed_def by (intro exI[of _ "qs @ [p]"] exI[of _ "[h, r]"]) simp
    with True show ?thesis by (simp add: ps step_snoc)
  next
    case False
    with p have "length (p @ [r]) \<le> Suc (nat L)" "1 \<le> length (p @ [r])" "length (p @ [r]) \<noteq> 1"
      by auto
    with qs have "packed (nat L) (qs @ [p @ [r]])"
      unfolding packed_def by (intro exI[of _ qs] exI[of _ "p @ [r]"]) simp
    with False show ?thesis by (simp add: ps step_snoc)
  qed
qed

lemma pack_packed:
  assumes "0 < L" "packed (nat L) ps"
  shows "packed (nat L) (pack L h ps rs)"
  using assms(2)
proof (induction rs arbitrary: ps)
  case Nil
  then show ?case by (simp add: pack_def)
next
  case (Cons r rs)
  from Cons.IH[OF step_packed[OF assms(1) Cons.prems]] show ?case by (simp add: pack_def)
qed

lemma length_concat_tl:
  assumes "\<forall>q \<in> set qs. length q = Suc l"
  shows "length (concat (map tl qs)) = length qs * l"
  using assms by (induction qs) auto

lemma parts_count:
  fixes l m c R :: nat
  assumes "0 < l" "R = m * l + c" "c \<le> l" "c = 0 \<longrightarrow> m = 0"
  shows "int (Suc m) = max 1 \<lceil>real R / real l\<rceil>"
    and "c = (if R mod l = 0 \<and> 0 < R then l else R mod l)"
proof -
  show "int (Suc m) = max 1 \<lceil>real R / real l\<rceil>"
  proof (cases "c = 0")
    case True
    with assms show ?thesis by simp
  next
    case False
    have "real R / real l = real m + real c / real l"
      using assms(1,2) by (simp add: field_simps)
    moreover have "0 < real c / real l" "real c / real l \<le> 1"
      using False assms(1,3) by simp_all
    ultimately have "of_int (int m) < real R / real l" "real R / real l \<le> of_int (int m) + 1"
      by simp_all
    then have "\<lceil>real R / real l\<rceil> = int m + 1" by (rule ceiling_eq)
    then show ?thesis by simp
  qed
  show "c = (if R mod l = 0 \<and> 0 < R then l else R mod l)"
  proof (cases "c = l")
    case True
    with assms show ?thesis by simp
  next
    case False
    with assms(3) have "c < l" by simp
    with assms(2) have "R mod l = c" by simp
    with assms(4) assms(2) show ?thesis by auto
  qed
qed

lemma run_parts_pack:
  assumes "os_Open env (InputPath cfg) = Inr f"
    and "f (createReader (NewCSVSplitter cfg)) = Record header # map Record recs"
    and "run_error env cfg w = None"
  shows "run_parts env cfg w = pack (MaxRecords cfg) header [[header]] (kept cfg recs)"
proof -
  obtain e s' w' where r: "Split env (NewCSVSplitter cfg) w = (e, s', w')"
    by (cases "Split env (NewCSVSplitter cfg) w") auto
  with assms(3) have r': "Split env (NewCSVSplitter cfg) w = (None, s', w')"
    by (simp add: run_error_def)
  from Split_parts[OF r'] obtain f' h rs where
    "os_Open env (InputPath cfg) = Inr f'"
    "f' (createReader (NewCSVSplitter cfg)) = Record h # map Record rs"
    "output_parts cfg s' w' = pack (MaxRecords cfg) h [[h]] (kept cfg rs)"
    by blast
  moreover from this assms(1,2) have "h = header \<and> records_of (map Record rs) = records_of (map Record recs)"
    by auto
  ultimately have "output_parts cfg s' w' = pack (MaxRecords cfg) header [[header]] (kept cfg recs)"
    by simp
  then show ?thesis by (simp add: run_parts_def r')
qed

lemma pack_shape:
  assumes "0 < L"
  shows "\<exists>qs p. pack L h [[h]] rs = qs @ [p] \<and> (\<forall>q \<in> set qs. length q = Suc (nat L)) \<and>
           1 \<le> length p \<and> length p \<le> Suc (nat L) \<and> (length p = 1 \<longrightarrow> qs = []) \<and>
           length rs = length qs * nat L + (length p - 1)"
proof -
  have "packed (nat L) [[h]]" by (simp add: packed_def)
  from pack_packed[OF assms this, of h rs] obtain qs p where
    ps: "pack L h [[h]] rs = qs @ [p]" and qs: "\<forall>q \<in> set qs. length q = Suc (nat L)"
    and p: "1 \<le> length p" "length p \<le> Suc (nat L)" "length p = 1 \<longrightarrow> qs = []"
    by (auto simp: packed_def)
  have "heads h [[h]]" by (simp add: heads_def)
  with pack_heads[of "[[h]]" h L rs] have "concat (map tl (pack L h [[h]] rs)) = rs" by simp
  then have "length (concat (map tl (qs @ [p]))) = length rs" by (simp add: ps)
  then have "length rs = length (concat (map tl qs)) + length (tl p)" by simp
  with length_concat_tl[OF qs] have "length rs = length qs * nat L + (length p - 1)" by simp
  with ps qs p show ?thesis by blast
qed

section \<open>Number and size of the parts\<close>

text \<open>
  Claim C1. With \<open>skip-empty\<close> disabled and a limit \<open>L > 0\<close>, a run that completes on
  an input with \<open>R\<close> data records leaves exactly \<open>max(1, ceil(R / L))\<close> parts; every part
  but the last holds exactly \<open>L\<close> data records after its header; the last holds
  \<open>R mod L\<close> data records, or \<open>L\<close> when \<open>R mod L = 0\<close> and \<open>R > 0\<close>; and the first
  record of every part is the header.
\<close>

theorem Split_part_count_and_sizes:
  assumes "os_Open env (InputPath cfg) = Inr f"
    and "f (createReader (NewCSVSplitter cfg)) = Record header # map Record recs"
    and "\<not> SkipEmpty cfg" and "0 < MaxRecords cfg"
    and "run_error env cfg w = None"
  shows "int (length (run_parts env cfg w)) =
           max 1 \<lceil>real (length recs) / real_of_int (MaxRecords cfg)\<rceil> \<and>
         (\<forall>p \<in> set (butlast (run_parts env cfg w)). length (tl p) = nat (MaxRecords cfg)) \<and>
         length (tl (last (run_parts env cfg w))) =
           (if length recs mod nat (MaxRecords cfg) = 0 \<and> 0 < length recs
            then nat (MaxRecords cfg) else length recs mod nat (MaxRecords cfg)) \<and>
         (\<forall>p \<in> set (run_parts env cfg w). p \<noteq> [] \<and> hd p = header)"
proof -
  let ?L = "MaxRecords cfg"
  have k: "kept cfg recs = recs" using assms(3) by (simp add: kept_def)
  have rp: "run_parts env cfg w = pack ?L header [[header]] recs"
    using run_parts_pack[OF assms(1,2,5)] by (simp add: k)
  from pack_shape[OF assms(4), of header recs] obtain qs p where
    ps: "pack ?L header [[header]] recs = qs @ [p]"
    and qs: "\<forall>q \<in> set qs. length q = Suc (nat ?L)"
    and p: "1 \<le> length p" "length p \<le> Suc (nat ?L)" "length p = 1 \<longrightarrow> qs = []"
    and n: "length recs = length qs * nat ?L + (length p - 1)"
    by blast
  have L: "0 < nat ?L" "real_of_int ?L = real (nat ?L)" using assms(4) by simp_all
  have c: "length p - 1 \<le> nat ?L" "length p - 1 = 0 \<longrightarrow> length qs = 0" using p by auto
  from parts_count[OF L(1) n c] have
    a: "int (Suc (length qs)) = max 1 \<lceil>real (length recs) / real (nat ?L)\<rceil>"
    and b: "length p - 1 = (if length recs mod nat ?L = 0 \<and> 0 < length recs then nat ?L
                            else length recs mod nat ?L)"
    by simp_all
  have "heads header [[header]]" by (simp add: heads_def)
  with pack_heads[of "[[header]]" header ?L recs]
  have hd: "\<forall>q \<in> set (pack ?L header [[header]] recs). q \<noteq> [] \<and> hd q = header"
    by (simp add: heads_def)
  have 1: "int (length (run_parts env cfg w)) =
           max 1 \<lceil>real (length recs) / real_of_int ?L\<rceil>"
    using a by (simp add: rp ps L(2))
  have 2: "\<forall>q \<in> set (butlast (run_parts env cfg w)). length (tl q) = nat ?L"
    using qs by (simp add: rp ps)
  have 3: "length (tl (last (run_parts env cfg w))) =
           (if length recs mod nat ?L = 0 \<and> 0 < length recs then nat ?L
            else length recs mod nat ?L)"
    using b by (simp add: rp ps)
  have 4: "\<forall>q \<in> set (run_parts env cfg w). q \<noteq> [] \<and> hd q = header"
    using hd by (simp add: rp)
  from 1 2 3 4 show ?thesis by blast
qed

theorem Split_part_count_and_sizes_witness:
  "run_error (sample_env people) (sample_cfg 2 False) no_files = None \<and>
   \<not> SkipEmpty (sample_cfg 2 False) \<and> 0 < MaxRecords (sample_cfg 2 False) \<and>
   int (length (run_parts (sample_env people) (sample_cfg 2 False) no_files)) = 2 \<and>
   length (tl (last (run_parts (sample_env people) (sample_cfg 2 False) no_files))) = 1"
proof -
  let ?recs = "[[''Alice'', ''30''], [''Bob'', ''25''], [''Carol'', ''40'']]"
  have a: "os_Open (sample_env people) (InputPath (sample_cfg 2 False)) = Inr (\<lambda>rd. people)"
    by (simp add: sample_env_def)
  have b: "(\<lambda>rd. people) (createReader (NewCSVSplitter (sample_cfg 2 False))) =
             Record [''name'', ''age''] # map Record ?recs"
    by (simp add: people_def)
  have c: "\<not> SkipEmpty (sample_cfg 2 False)" and d: "0 < MaxRecords (sample_cfg 2 False)"
    by (simp_all add: sample_cfg_def)
  have e: "run_error (sample_env people) (sample_cfg 2 False) no_files = None"
    by code_simp
  note t = Split_part_count_and_sizes[OF a b c d e]
  from t have "int (length (run_parts (sample_env people) (sample_cfg 2 False) no_files)) =
      max 1 \<lceil>real (length ?recs) / real_of_int (MaxRecords (sample_cfg 2 False))\<rceil>"
    by blast
  then have n: "int (length (run_parts (sample_env people) (sample_cfg 2 False) no_files)) = 2"
    by (simp add: sample_cfg_def)
  from t have "length (tl (last (run_parts (sample_env people) (sample_cfg 2 False) no_files))) =
      (if length ?recs mod nat (MaxRecords (sample_cfg 2 False)) = 0 \<and> 0 < length ?recs
       then nat (MaxRecords (sample_cfg 2 False))
       else length ?recs mod nat (MaxRecords (sample_cfg 2 False)))"
    by blast
  then have l: "length (tl (last (run_parts (sample_env people) (sample_cfg 2 False) no_files))) = 1"
    by (simp add: sample_cfg_def)
  from c d e n l show ?thesis by blast
qed

section \<open>Round trip\<close>

text \<open>
  As stated, claim C2 says that the data records of the parts, concatenated in part
  order, are the data records of the input. With \<open>skip-empty\<close> enabled (the default)
  that fails: the run below completes, its input has the data records \<open>,\<close> and
  \<open>Bob,25\<close>, and the parts hold \<open>Bob,25\<close> only.
\<close>

theorem round_trip_counterexample:
  "run_error (sample_env blank_then_bob) (sample_cfg 2 True) no_files = None \<and>
   records_of (tl blank_then_bob) = [[[], []], [''Bob'', ''25'']] \<and>
   concat (map tl (run_parts (sample_env blank_then_bob) (sample_cfg 2 True) no_files)) =
     [[''Bob'', ''25'']]"
  by code_simp

text \<open>
  Claim C2, amended. For every input that \<open>Split\<close> processes to completion, the data
  records of all parts, concatenated in part order, are exactly the data records of the
  input that \<open>skip-empty\<close> does not discard, in their original order and with the same
  field values: all data records when \<open>skip-empty\<close> is disabled, those with a non-empty
  field when it is enabled. This holds for every limit, positive or not.
\<close>

theorem Split_round_trip:
  assumes "os_Open env (InputPath cfg) = Inr f"
    and "f (createReader (NewCSVSplitter cfg)) = Record header # map Record recs"
    and "run_error env cfg w = None"
  shows "concat (map tl (run_parts env cfg w)) = kept cfg recs \<and>
         (\<not> SkipEmpty cfg \<longrightarrow> concat (map tl (run_parts env cfg w)) = recs)"
proof -
  have "heads header [[header]]" by (simp add: heads_def)
  with pack_heads[of "[[header]]" header "MaxRecords cfg" "kept cfg recs"]
  have "concat (map tl (pack (MaxRecords cfg) header [[header]] (kept cfg recs))) = kept cfg recs"
    by simp
  then have "concat (map tl (run_parts env cfg w)) = kept cfg recs"
    by (simp add: run_parts_pack[OF assms])
  then show ?thesis by (simp add: kept_def)
qed

theorem Split_round_trip_witness:
  "run_error (sample_env blank_then_bob) (sample_cfg 2 True) no_files = None \<and>
   concat (map tl (run_parts (sample_env blank_then_bob) (sample_cfg 2 True) no_files)) =
     kept (sample_cfg 2 True) [[[], []], [''Bob'', ''25'']] \<and>
   kept (sample_cfg 2 True) [[[], []], [''Bob'', ''25'']] = [[''Bob'', ''25'']]"
proof -
  have a: "os_Open (sample_env blank_then_bob) (InputPath (sample_cfg 2 True)) = Inr (\<lambda>rd. blank_then_bob)"
    by (simp add: sample_env_def)
  have b: "(\<lambda>rd. blank_then_bob) (createReader (NewCSVSplitter (sample_cfg 2 True))) =
             Record [''name'', ''age''] # map Record [[[], []], [''Bob'', ''25'']]"
    by (simp add: blank_then_bob_def)
  have e: "run_error (sample_env blank_then_bob) (sample_cfg 2 True) no_files = None"
    by code_simp
  have k: "kept (sample_cfg 2 True) [[[], []], [''Bob'', ''25'']] = [[''Bob'', ''25'']]"
    by code_simp
  from Split_round_trip[OF a b e] e k show ?thesis by blast
qed

section \<open>The shape of every part\<close>

text \<open>
  As stated, claim C3 says that a part without data records is left only when the input
  has no data record at all. With \<open>skip-empty\<close> enabled that fails: the input below has
  one data record, the run completes, and its only part holds the header alone.
\<close>

theorem empty_part_counterexample:
  "run_error (sample_env blank_row) (sample_cfg 2 True) no_files = None \<and>
   records_of (tl blank_row) = [[[], []]] \<and>
   run_parts (sample_env blank_row) (sample_cfg 2 True) no_files = [[[''name'', ''age'']]]"
  by code_simp

text \<open>
  Claim C3, amended. In a run that completes with a limit \<open>L > 0\<close>, every part holds
  the header followed by between 0 and \<open>L\<close> data records, and a part without data
  records is left only when no data record of the input is written (the input has
  none, or \<open>skip-empty\<close> discards them all); then, and in particular for an input that
  ends after its header, the run leaves exactly one part, which holds the header alone.
\<close>

theorem Split_parts_invariant:
  assumes "os_Open env (InputPath cfg) = Inr f"
    and "f (createReader (NewCSVSplitter cfg)) = Record header # map Record recs"
    and "0 < MaxRecords cfg"
    and "run_error env cfg w = None"
  shows "run_parts env cfg w \<noteq> [] \<and>
         (\<forall>p \<in> set (run_parts env cfg w).
            p \<noteq> [] \<and> hd p = header \<and> length (tl p) \<le> nat (MaxRecords cfg)) \<and>
         ((\<exists>p \<in> set (run_parts env cfg w). tl p = []) \<longrightarrow> kept cfg recs = []) \<and>
         (kept cfg recs = [] \<longrightarrow> run_parts env cfg w = [[header]]) \<and>
         (recs = [] \<longrightarrow> run_parts env cfg w = [[header]])"
proof -
  let ?L = "MaxRecords cfg"
  let ?ps = "pack ?L header [[header]] (kept cfg recs)"
  have rp: "run_parts env cfg w = ?ps" by (rule run_parts_pack[OF assms(1,2,4)])
  from pack_shape[OF assms(3), of header "kept cfg recs"] obtain qs p where
    ps: "?ps = qs @ [p]"
    and qs: "\<forall>q \<in> set qs. length q = Suc (nat ?L)"
    and p: "1 \<le> length p" "length p \<le> Suc (nat ?L)" "length p = 1 \<longrightarrow> qs = []"
    and n: "length (kept cfg recs) = length qs * nat ?L + (length p - 1)"
    by blast
  have "heads header [[header]]" by (simp add: heads_def)
  with pack_heads[of "[[header]]" header ?L "kept cfg recs"]
  have hd: "\<forall>q \<in> set ?ps. q \<noteq> [] \<and> hd q = header"
    by (simp add: heads_def)
  have 1: "run_parts env cfg w \<noteq> []" by (simp add: rp ps)
  have 2: "\<forall>q \<in> set (run_parts env cfg w).
            q \<noteq> [] \<and> hd q = header \<and> length (tl q) \<le> nat ?L"
    using hd qs p unfolding rp by (auto simp: ps)
  have 3: "(\<exists>q \<in> set (run_parts env cfg w). tl q = []) \<longrightarrow> kept cfg recs = []"
  proof
    assume "\<exists>q \<in> set (run_parts env cfg w). tl q = []"
    then obtain q where q: "q \<in> set (qs @ [p])" "tl q = []" by (auto simp: rp ps)
    have L: "0 < nat ?L" using assms(3) by simp
    have q1: "length q \<le> 1" using q(2) by (cases q) auto
    with qs L have "q \<notin> set qs" by auto
    with q(1) have "q = p" by simp
    with q1 p have "length p = 1" by simp
    with p n show "kept cfg recs = []" by simp
  qed
  have 4: "kept cfg recs = [] \<longrightarrow> run_parts env cfg w = [[header]]"
    by (simp add: rp pack_def)
  have 5: "recs = [] \<longrightarrow> run_parts env cfg w = [[header]]"
    by (simp add: rp pack_def kept_def)
  from 1 2 3 4 5 show ?thesis by blast
qed

theorem Split_parts_invariant_witness:
  "run_error (sample_env people) (sample_cfg 2 True) no_files = None \<and>
   0 < MaxRecords (sample_cfg 2 True) \<and>
   run_parts (sample_env people) (sample_cfg 2 True) no_files \<noteq> [] \<and>
   run_error (sample_env [Record [''name'', ''age'']]) (sample_cfg 2 True) no_files = None \<and>
   run_parts (sample_env [Record [''name'', ''age'']]) (sample_cfg 2 True) no_files =
     [[[''name'', ''age'']]]"
proof -
  let ?recs = "[[''Alice'', ''30''], [''Bob'', ''25''], [''Carol'', ''40'']]"
  have a: "os_Open (sample_env people) (InputPath (sample_cfg 2 True)) = Inr (\<lambda>rd. people)"
    by (simp add: sample_env_def)
  have b: "(\<lambda>rd. people) (createReader (NewCSVSplitter (sample_cfg 2 True))) =
             Record [''name'', ''age''] # map Record ?recs"
    by (simp add: people_def)
  have d: "0 < MaxRecords (sample_cfg 2 True)"
    by (simp add: sample_cfg_def)
  have e: "run_error (sample_env people) (sample_cfg 2 True) no_files = None"
    by code_simp
  have a': "os_Open (sample_env [Record [''name'', ''age'']]) (InputPath (sample_cfg 2 True)) =
      Inr (\<lambda>rd. [Record [''name'', ''age'']])"
    by (simp add: sample_env_def)
  have b': "(\<lambda>rd. [Record [''name'', ''age'']]) (createReader (NewCSVSplitter (sample_cfg 2 True))) =
             Record [''name'', ''age''] # map Record []"
    by simp
  have e': "run_error (sample_env [Record [''name'', ''age'']]) (sample_cfg 2 True) no_files = None"
    by code_simp
  from Split_parts_invariant[OF a b d e] Split_parts_invariant[OF a' b' d e'] d e e'
  show ?thesis by blast
qed

section \<open>The verbose flag\<close>

text \<open>
  \<open>quiet\<close> forgets what the verbose flag can change: the flag itself and the standard
  output. Every operation of the splitter commutes with it.
\<close>

definition quiet_s :: "CSVSplitter \<Rightarrow> CSVSplitter" where
  "quiet_s s = s\<lparr>config := (config s)\<lparr>Verbose := False\<rparr>\<rparr>"

definition quiet_w :: "World \<Rightarrow> World" where
  "quiet_w w = w\<lparr>stdout := []\<rparr>"

definition quiet :: "Run \<Rightarrow> Run" where
  "quiet st = st\<lparr>spl := quiet_s (spl st), world := quiet_w (world st)\<rparr>"

definition run_files :: "Env \<Rightarrow> Config \<Rightarrow> World \<Rightarrow> path \<Rightarrow> line list option" where
  "run_files env cfg w = files (snd (snd (Split env (NewCSVSplitter cfg) w)))"

lemma quiet_w_Printf [simp]: "quiet_w (Printf v m w) = quiet_w w"
  by (simp add: quiet_w_def Printf_def)

lemma Writer_Write_quiet:
  "map_prod id quiet_w (Writer_Write env wr r (quiet_w w)) = map_prod id quiet_w (Writer_Write env wr r w)"
  by (simp add: Writer_Write_def quiet_w_def split: option.splits)

lemma createNewFile_quiet:
  "map_prod id (map_prod quiet_s quiet_w) (createNewFile env h (quiet_s s) (quiet_w w)) =
   map_prod id (map_prod quiet_s quiet_w) (createNewFile env h s w)"
  by (simp add: createNewFile_def closeCurrentFile_def Writer_Write_def quiet_s_def quiet_w_def
      Printf_def Let_def split: option.splits)

lemma loop_body_quiet:
  "map_sum (map_prod id quiet) quiet (loop_body env h r (quiet st)) =
   map_sum (map_prod id quiet) quiet (loop_body env h r st)"
  by (simp add: loop_body_def quiet_def createNewFile_def closeCurrentFile_def Writer_Write_def
      quiet_s_def quiet_w_def Printf_def Let_def split: option.splits)

lemma records_loop_quiet:
  "map_prod id quiet (records_loop env h rs (quiet st)) =
   map_prod id quiet (records_loop env h rs st)"
proof (induction rs arbitrary: st)
  case Nil
  show ?case by (simp add: quiet_def quiet_s_def quiet_w_def)
next
  case (Cons x rs)
  show ?case
  proof (cases x)
    case (Failed c)
    then show ?thesis by (simp add: quiet_def quiet_s_def quiet_w_def)
  next
    case (Record r)
    show ?thesis
    proof (cases "loop_body env h r st")
      case (Inl a)
      with loop_body_quiet[of env h r st] show ?thesis
        by (cases "loop_body env h r (quiet st)"; cases a) (auto simp: Record)
    next
      case (Inr st1)
      with loop_body_quiet[of env h r st] obtain st2 where
        b: "loop_body env h r (quiet st) = Inr st2" and q: "quiet st2 = quiet st1"
        by (cases "loop_body env h r (quiet st)") auto
      have "map_prod id quiet (records_loop env h rs st2) = map_prod id quiet (records_loop env h rs (quiet st2))"
        by (rule Cons.IH[symmetric])
      also have "\<dots> = map_prod id quiet (records_loop env h rs (quiet st1))" by (simp add: q)
      also have "\<dots> = map_prod id quiet (records_loop env h rs st1)" by (rule Cons.IH)
      finally show ?thesis by (simp add: Record Inr b id_def)
    qed
  qed
qed

lemma quiet_s_simps [simp]:
  "config (quiet_s s) = (config s)\<lparr>Verbose := False\<rparr>"
  "partNumber (quiet_s s) = partNumber s"
  "writer (quiet_s s) = writer s"
  "outFile (quiet_s s) = outFile s"
  "quiet_s (closeCurrentFile s) = closeCurrentFile (quiet_s s)"
  by (simp_all add: quiet_s_def closeCurrentFile_def Let_def)

lemma quiet_w_files [simp]: "files (quiet_w w) = files w"
  by (simp add: quiet_w_def)

lemma quiet_simps [simp]:
  "spl (quiet st) = quiet_s (spl st)"
  "world (quiet st) = quiet_w (world st)"
  "recordCount (quiet st) = recordCount st"
  "totalRecords (quiet st) = totalRecords st"
  by (simp_all add: quiet_def)

lemma Split_quiet:
  "map_prod id (map_prod quiet_s quiet_w) (Split env (quiet_s s) (quiet_w w)) =
   map_prod id (map_prod quiet_s quiet_w) (Split env s w)"
proof (cases "openInputFile env s")
  case (Inl e)
  then have "openInputFile env (quiet_s s) = Inl e"
    by (simp add: openInputFile_def split: sum.splits)
  with Inl show ?thesis by (simp add: Split_def quiet_s_def quiet_w_def)
next
  case (Inr f)
  then have o: "openInputFile env (quiet_s s) = Inr f"
    by (simp add: openInputFile_def split: sum.splits)
  have rd: "createReader (quiet_s s) = createReader s" by (simp add: createReader_def)
  show ?thesis
  proof (cases "readHeader (f (createReader s))")
    case (Inl e)
    with Inr o rd show ?thesis by (simp add: Split_def quiet_s_def quiet_w_def)
  next
    case (Inr hr)
    obtain h rest where hr: "hr = (h, rest)" by (cases hr) auto
    let ?w1 = "Printf (Verbose (config s)) (MaxRecordsMsg (MaxRecords (config s)))
                (Printf (Verbose (config s)) (StartMsg (InputPath (config s))) w)"
    obtain e s1 w1 where c: "createNewFile env h s ?w1 = (e, s1, w1)"
      by (cases "createNewFile env h s ?w1") auto
    obtain e' s2 w2 where c': "createNewFile env h (quiet_s s) (quiet_w w) = (e', s2, w2)"
      by (cases "createNewFile env h (quiet_s s) (quiet_w w)") auto
    from createNewFile_quiet[of env h s ?w1] c c'
    have eq: "e' = e" "quiet_s s2 = quiet_s s1" "quiet_w w2 = quiet_w w1" by simp_all
    have c'': "createNewFile env h (quiet_s s)
        (Printf False (MaxRecordsMsg (MaxRecords (config s))) (Printf False (StartMsg (InputPath (config s))) (quiet_w w)))
        = (e, s2, w2)"
      using c' eq by (simp add: Printf_def)
    show ?thesis
    proof (cases e)
      case (Some err)
      with \<open>openInputFile env s = Inr f\<close> o rd Inr hr c c'' eq show ?thesis
        by (simp add: Split_def Let_def)
    next
      case None
      let ?st1 = "\<lparr>spl = s1, world = w1, recordCount = 0, totalRecords = 0\<rparr>"
      let ?st2 = "\<lparr>spl = s2, world = w2, recordCount = 0, totalRecords = 0\<rparr>"
      have q: "quiet ?st2 = quiet ?st1" using eq by (simp add: quiet_def)
      have "map_prod id quiet (records_loop env h rest ?st2) =
            map_prod id quiet (records_loop env h rest (quiet ?st2))"
        by (rule records_loop_quiet[symmetric])
      also have "\<dots> = map_prod id quiet (records_loop env h rest ?st1)"
        unfolding q by (rule records_loop_quiet)
      finally have l: "map_prod id quiet (records_loop env h rest ?st2) =
            map_prod id quiet (records_loop env h rest ?st1)" .
      obtain e1 st1' where l1: "records_loop env h rest ?st1 = (e1, st1')"
        by (cases "records_loop env h rest ?st1") auto
      obtain e2 st2' where l2: "records_loop env h rest ?st2 = (e2, st2')"
        by (cases "records_loop env h rest ?st2") auto
      from l l1 l2 have le: "e2 = e1" "quiet st2' = quiet st1'" by simp_all
      then have "quiet_s (spl st2') = quiet_s (spl st1')" "quiet_w (world st2') = quiet_w (world st1')"
        by (metis quiet_simps(1), metis quiet_simps(2))
      with \<open>openInputFile env s = Inr f\<close> o rd Inr hr c c'' None l1 l2 le show ?thesis
        by (cases e1) (simp_all add: Split_def Let_def)
    qed
  qed
qed

text \<open>
  Claim C8. Two runs of \<open>Split\<close> that differ only in the verbose flag return the same
  error and leave the same files with the same contents (hence the same parts), whatever
  the input, the configuration and the environment: \<open>Verbose\<close> only adds messages to the
  standard output.
\<close>

theorem verbose_only_prints:
  "run_error env (cfg\<lparr>Verbose := True\<rparr>) w = run_error env (cfg\<lparr>Verbose := False\<rparr>) w \<and>
   run_files env (cfg\<lparr>Verbose := True\<rparr>) w = run_files env (cfg\<lparr>Verbose := False\<rparr>) w \<and>
   run_parts env (cfg\<lparr>Verbose := True\<rparr>) w = run_parts env (cfg\<lparr>Verbose := False\<rparr>) w"
proof -
  let ?T = "cfg\<lparr>Verbose := True\<rparr>" and ?F = "cfg\<lparr>Verbose := False\<rparr>"
  have s: "quiet_s (NewCSVSplitter ?T) = quiet_s (NewCSVSplitter ?F)"
    by (simp add: quiet_s_def NewCSVSplitter_def)
  have "map_prod id (map_prod quiet_s quiet_w) (Split env (NewCSVSplitter ?T) w) =
        map_prod id (map_prod quiet_s quiet_w) (Split env (quiet_s (NewCSVSplitter ?T)) (quiet_w w))"
    by (rule Split_quiet[symmetric])
  also have "\<dots> = map_prod id (map_prod quiet_s quiet_w) (Split env (NewCSVSplitter ?F) w)"
    unfolding s by (rule Split_quiet)
  finally have eq: "map_prod id (map_prod quiet_s quiet_w) (Split env (NewCSVSplitter ?T) w) =
        map_prod id (map_prod quiet_s quiet_w) (Split env (NewCSVSplitter ?F) w)" .
  obtain e1 s1 w1 where r1: "Split env (NewCSVSplitter ?T) w = (e1, s1, w1)"
    by (cases "Split env (NewCSVSplitter ?T) w") auto
  obtain e2 s2 w2 where r2: "Split env (NewCSVSplitter ?F) w = (e2, s2, w2)"
    by (cases "Split env (NewCSVSplitter ?F) w") auto
  from eq r1 r2 have e: "e1 = e2" and qs: "quiet_s s1 = quiet_s s2" and qw: "quiet_w w1 = quiet_w w2"
    by simp_all
  from qs have pn: "partNumber s1 = partNumber s2" by (metis quiet_s_simps(2))
  from qw have f: "files w1 = files w2" by (metis quiet_w_files)
  have "output_parts ?T s1 w1 = output_parts ?F s2 w2"
    by (simp add: output_parts_def part_records_def part_path_def pn f)
  with e f show ?thesis by (simp add: run_error_def run_files_def run_parts_def r1 r2)
qed

section \<open>Records that skip-empty discards\<close>

text \<open>
  \<open>untotal\<close> forgets the total counter and \<open>unline\<close> the line number of an error: the
  counter is used for nothing else.
\<close>

fun unline :: "error \<Rightarrow> error" where
  "unline (RecordReadError n c) = RecordReadError 0 c"
| "unline (RecordWriteError n c) = RecordWriteError 0 c"
| "unline e = e"

definition untotal :: "Run \<Rightarrow> Run" where
  "untotal st = st\<lparr>totalRecords := 0\<rparr>"

lemma untotal_simps [simp]:
  "spl (untotal st) = spl st"
  "world (untotal st) = world st"
  "recordCount (untotal st) = recordCount st"
  by (simp_all add: untotal_def)

lemma untotal_eqD:
  assumes "untotal st = untotal st'"
  shows "spl st = spl st'" "world st = world st'" "recordCount st = recordCount st'"
  using assms untotal_simps by metis+

lemma untotal_eqI:
  "spl st = spl st' \<Longrightarrow> world st = world st' \<Longrightarrow> recordCount st = recordCount st' \<Longrightarrow>
   untotal (st::Run) = untotal st'"
  by (cases st; cases st') (simp add: untotal_def)

lemma loop_body_untotal:
  assumes "untotal st = untotal st'"
  shows "map_sum (map_prod unline untotal) untotal (loop_body env h r st) =
         map_sum (map_prod unline untotal) untotal (loop_body env h r st')"
proof -
  note eq = untotal_eqD[OF assms]
  show ?thesis
    by (simp add: loop_body_def Let_def eq untotal_def split: option.splits prod.splits)
qed

lemma records_loop_untotal:
  assumes "untotal st = untotal st'"
  shows "map_prod (map_option unline) untotal (records_loop env h rs st) =
         map_prod (map_option unline) untotal (records_loop env h rs st')"
  using assms
proof (induction rs arbitrary: st st')
  case Nil
  then show ?case by simp
next
  case (Cons x rs)
  show ?case
  proof (cases x)
    case (Failed c)
    with Cons.prems show ?thesis by simp
  next
    case (Record r)
    note b = loop_body_untotal[OF Cons.prems, of env h r]
    show ?thesis
    proof (cases "loop_body env h r st")
      case (Inl a)
      with b show ?thesis
        by (cases "loop_body env h r st'"; cases a) (auto simp: Record)
    next
      case (Inr st1)
      with b obtain st2 where b': "loop_body env h r st' = Inr st2" and q: "untotal st1 = untotal st2"
        by (cases "loop_body env h r st'") auto
      from Cons.IH[OF q] show ?thesis by (simp add: Record Inr b')
    qed
  qed
qed

lemma loop_body_config:
  assumes "loop_body env h r st = Inr st'"
  shows "config (spl st') = config (spl st)"
  using assms
  by (auto simp: loop_body_def Let_def createNewFile_def closeCurrentFile_def Writer_Write_def
      split: if_splits option.splits prod.splits)

lemma loop_body_skip:
  assumes "SkipEmpty (config (spl st))" "isEmptyRecord r"
  shows "loop_body env h r st = Inr (st\<lparr>totalRecords := totalRecords st + 1\<rparr>)"
  using assms by (simp add: loop_body_def Let_def)

lemma records_loop_skip:
  assumes "SkipEmpty (config (spl st))" "isEmptyRecord r"
  shows "map_prod (map_option unline) untotal (records_loop env h (pre @ Record r # post) st) =
         map_prod (map_option unline) untotal (records_loop env h (pre @ post) st)"
  using assms(1)
proof (induction pre arbitrary: st)
  case Nil
  have "untotal (st\<lparr>totalRecords := totalRecords st + 1\<rparr>) = untotal st"
    by (simp add: untotal_def)
  from records_loop_untotal[OF this] show ?case
    by (simp add: loop_body_skip[OF Nil assms(2)])
next
  case (Cons x pre)
  show ?case
  proof (cases x)
    case (Failed c)
    then show ?thesis by simp
  next
    case (Record r')
    show ?thesis
    proof (cases "loop_body env h r' st")
      case (Inl a)
      then show ?thesis by (cases a) (simp add: Record)
    next
      case (Inr st1)
      from loop_body_config[OF Inr] Cons.prems have "SkipEmpty (config (spl st1))" by simp
      from Cons.IH[OF this] show ?thesis by (simp add: Record Inr)
    qed
  qed
qed

lemma env_cong:
  assumes "os_Create env' = os_Create env" "write_error env' = write_error env"
  shows "createNewFile env' = createNewFile env" "loop_body env' = loop_body env"
    "records_loop env' = records_loop env"
proof -
  have w: "Writer_Write env' = Writer_Write env"
    by (intro ext) (unfold Writer_Write_def assms, rule refl)
  show c: "createNewFile env' = createNewFile env"
    by (intro ext) (unfold createNewFile_def w assms, rule refl)
  show b: "loop_body env' = loop_body env"
    by (intro ext) (unfold loop_body_def w c, rule refl)
  have "records_loop env' h rs st = records_loop env h rs st" for h rs st
    by (induction rs arbitrary: st rule: records_of.induct) (simp_all add: b split: sum.splits)
  then show "records_loop env' = records_loop env" by (intro ext)
qed

lemma Split_unfold:
  assumes "openInputFile env s = Inr f" "readHeader (f (createReader s)) = Inr (h, rest)"
    and "createNewFile env h s (Printf (Verbose (config s)) (MaxRecordsMsg (MaxRecords (config s)))
                (Printf (Verbose (config s)) (StartMsg (InputPath (config s))) w)) = (None, s1, w1)"
    and "records_loop env h rest \<lparr>spl = s1, world = w1, recordCount = 0, totalRecords = 0\<rparr> = (e, st)"
  shows "Split env s w = (e, closeCurrentFile (spl st),
           (if e = None then Printf (Verbose (config (spl st))) (ProcessedMsg (totalRecords st)) (world st)
            else world st))"
  by (cases e) (simp_all add: Split_def assms Let_def)

lemma Split_skip:
  assumes "SkipEmpty cfg" "isEmptyRecord r"
    and "os_Open env (InputPath cfg) = Inr f"
    and "f (createReader (NewCSVSplitter cfg)) = Record header # pre @ Record r # post"
    and "os_Open env' (InputPath cfg) = Inr f'"
    and "f' (createReader (NewCSVSplitter cfg)) = Record header # pre @ post"
    and "os_Create env' = os_Create env" and "write_error env' = write_error env"
  shows "map_prod (map_option unline) (map_prod id files) (Split env (NewCSVSplitter cfg) w) =
         map_prod (map_option unline) (map_prod id files) (Split env' (NewCSVSplitter cfg) w)"
proof -
  let ?s = "NewCSVSplitter cfg"
  note cong = env_cong[OF assms(7,8)]
  have o: "openInputFile env ?s = Inr f" "openInputFile env' ?s = Inr f'"
    using assms(3,5) by (simp_all add: openInputFile_def NewCSVSplitter_def)
  show ?thesis
  proof (cases "header = []")
    case True
    with o assms(4,6) show ?thesis by (simp add: Split_def)
  next
    case False
    then have rh: "readHeader (f (createReader ?s)) = Inr (header, pre @ Record r # post)"
      "readHeader (f' (createReader ?s)) = Inr (header, pre @ post)"
      using assms(4,6) by simp_all
    let ?w1 = "Printf (Verbose (config ?s)) (MaxRecordsMsg (MaxRecords (config ?s)))
                (Printf (Verbose (config ?s)) (StartMsg (InputPath (config ?s))) w)"
    obtain e s1 w1 where c: "createNewFile env header ?s ?w1 = (e, s1, w1)"
      by (cases "createNewFile env header ?s ?w1") auto
    show ?thesis
    proof (cases e)
      case (Some err)
      with o rh c cong show ?thesis by (simp add: Split_def Let_def)
    next
      case None
      let ?st = "\<lparr>spl = s1, world = w1, recordCount = 0, totalRecords = 0\<rparr>"
      have "config s1 = cfg"
        using c None
        by (auto simp: createNewFile_def Let_def NewCSVSplitter_def closeCurrentFile_def
            split: option.splits prod.splits)
      then have "SkipEmpty (config (spl ?st))" using assms(1) by simp
      note l = records_loop_skip[OF this assms(2), of env header pre post]
      obtain e1 st1 where l1: "records_loop env header (pre @ Record r # post) ?st = (e1, st1)"
        by (cases "records_loop env header (pre @ Record r # post) ?st") auto
      obtain e2 st2 where l2: "records_loop env header (pre @ post) ?st = (e2, st2)"
        by (cases "records_loop env header (pre @ post) ?st") auto
      from l l1 l2 have e: "map_option unline e1 = map_option unline e2"
        and u: "untotal st1 = untotal st2" by simp_all
      note eq = untotal_eqD[OF u]
      from e have n: "(e1 = None) = (e2 = None)" by (cases e1; cases e2) auto
      have c': "createNewFile env' header ?s ?w1 = (None, s1, w1)" using c None cong by simp
      have l2': "records_loop env' header (pre @ post) ?st = (e2, st2)" using l2 cong by simp
      note u1 = Split_unfold[OF o(1) rh(1) c[unfolded None] l1]
      note u2 = Split_unfold[OF o(2) rh(2) c' l2']
      have "files (if e1 = None then Printf (Verbose (config (spl st1))) (ProcessedMsg (totalRecords st1)) (world st1)
            else world st1) = files (world st1)"
        "files (if e2 = None then Printf (Verbose (config (spl st2))) (ProcessedMsg (totalRecords st2)) (world st2)
            else world st2) = files (world st2)"
        by (simp_all add: Printf_def)
      then show ?thesis unfolding u1 u2 by (simp add: e eq)
    qed
  qed
qed

text \<open>
  Claim C4. With \<open>skip-empty\<close> enabled, a record whose every field is the empty string
  only advances the total counter: the in-part counter, the splitter (so the part
  number and the open file) and the world stay as they are, so the record takes no
  slot of the current part and starts no new part. A run on an input with such a
  record leaves the same files and the same parts as a run on the input without it,
  and completes exactly when that run completes; and in a run that completes no data
  record of any part is all-empty.
\<close>

theorem skipped_record_leaves_no_trace:
  assumes "SkipEmpty cfg" "isEmptyRecord r"
    and "os_Open env (InputPath cfg) = Inr f"
    and "f (createReader (NewCSVSplitter cfg)) = Record header # pre @ Record r # post"
    and "os_Open env' (InputPath cfg) = Inr f'"
    and "f' (createReader (NewCSVSplitter cfg)) = Record header # pre @ post"
    and "os_Create env' = os_Create env" and "write_error env' = write_error env"
  shows "(\<forall>st. SkipEmpty (config (spl st)) \<longrightarrow>
            loop_body env header r st = Inr (st\<lparr>totalRecords := totalRecords st + 1\<rparr>)) \<and>
         run_files env cfg w = run_files env' cfg w \<and>
         run_parts env cfg w = run_parts env' cfg w \<and>
         (run_error env cfg w = None \<longleftrightarrow> run_error env' cfg w = None) \<and>
         (run_error env cfg w = None \<longrightarrow>
            (\<forall>p \<in> set (run_parts env cfg w). \<forall>d \<in> set (tl p). \<not> isEmptyRecord d))"
proof -
  have 1: "\<forall>st. SkipEmpty (config (spl st)) \<longrightarrow>
            loop_body env header r st = Inr (st\<lparr>totalRecords := totalRecords st + 1\<rparr>)"
    using assms(2) by (simp add: loop_body_skip)
  obtain e1 s1 w1 where r1: "Split env (NewCSVSplitter cfg) w = (e1, s1, w1)"
    by (cases "Split env (NewCSVSplitter cfg) w") auto
  obtain e2 s2 w2 where r2: "Split env' (NewCSVSplitter cfg) w = (e2, s2, w2)"
    by (cases "Split env' (NewCSVSplitter cfg) w") auto
  from Split_skip[OF assms, of w] r1 r2 have e: "map_option unline e1 = map_option unline e2"
    and s: "s1 = s2" and f: "files w1 = files w2" by simp_all
  have 2: "run_files env cfg w = run_files env' cfg w" by (simp add: run_files_def r1 r2 f)
  have 3: "run_parts env cfg w = run_parts env' cfg w"
    by (simp add: run_parts_def r1 r2 output_parts_def part_records_def s f)
  from e have 4: "run_error env cfg w = None \<longleftrightarrow> run_error env' cfg w = None"
    by (cases e1; cases e2) (auto simp: run_error_def r1 r2)
  have 5: "run_error env cfg w = None \<longrightarrow>
            (\<forall>p \<in> set (run_parts env cfg w). \<forall>d \<in> set (tl p). \<not> isEmptyRecord d)"
  proof (intro impI ballI)
    fix p d assume ok: "run_error env cfg w = None" and p: "p \<in> set (run_parts env cfg w)"
      and d: "d \<in> set (tl p)"
    from ok have "Split env (NewCSVSplitter cfg) w = (None, s1, w1)" by (simp add: run_error_def r1)
    from Split_parts[OF this] assms(3,4) obtain rs where
      c: "f (createReader (NewCSVSplitter cfg)) = Record header # map Record rs" by auto
    have "heads header [[header]]" by (simp add: heads_def)
    with pack_heads[of "[[header]]" header "MaxRecords cfg" "kept cfg rs"]
    have "concat (map tl (run_parts env cfg w)) = kept cfg rs"
      by (simp add: run_parts_pack[OF assms(3) c ok])
    moreover from p d have "d \<in> set (concat (map tl (run_parts env cfg w)))" by auto
    ultimately have "d \<in> set (kept cfg rs)" by simp
    with assms(1) show "\<not> isEmptyRecord d" by (simp add: kept_def)
  qed
  show ?thesis by (intro conjI 1 2 3 4 5)
qed

theorem skipped_record_leaves_no_trace_witness:
  "SkipEmpty (sample_cfg 2 True) \<and> isEmptyRecord [[], []] \<and>
   run_parts (sample_env blank_then_bob) (sample_cfg 2 True) no_files =
     run_parts (sample_env only_bob) (sample_cfg 2 True) no_files \<and>
   run_files (sample_env blank_then_bob) (sample_cfg 2 True) no_files =
     run_files (sample_env only_bob) (sample_cfg 2 True) no_files \<and>
   run_parts (sample_env only_bob) (sample_cfg 2 True) no_files =
     [[[''name'', ''age''], [''Bob'', ''25'']]]"
proof -
  have a: "SkipEmpty (sample_cfg 2 True)" by (simp add: sample_cfg_def)
  have b: "isEmptyRecord [[], []]" by simp
  have c: "os_Open (sample_env blank_then_bob) (InputPath (sample_cfg 2 True)) = Inr (\<lambda>rd. blank_then_bob)"
    by (simp add: sample_env_def)
  have d: "(\<lambda>rd. blank_then_bob) (createReader (NewCSVSplitter (sample_cfg 2 True))) =
      Record [''name'', ''age''] # [] @ Record [[], []] # [Record [''Bob'', ''25'']]"
    by (simp add: blank_then_bob_def)
  have e: "os_Open (sample_env only_bob) (InputPath (sample_cfg 2 True)) = Inr (\<lambda>rd. only_bob)"
    by (simp add: sample_env_def)
  have f: "(\<lambda>rd. only_bob) (createReader (NewCSVSplitter (sample_cfg 2 True))) =
      Record [''name'', ''age''] # [] @ [Record [''Bob'', ''25'']]"
    by (simp add: only_bob_def)
  have g: "os_Create (sample_env only_bob) = os_Create (sample_env blank_then_bob)"
    "write_error (sample_env only_bob) = write_error (sample_env blank_then_bob)"
    by (simp_all add: sample_env_def)
  have h: "run_parts (sample_env only_bob) (sample_cfg 2 True) no_files =
     [[[''name'', ''age''], [''Bob'', ''25'']]]"
    by code_simp
  from skipped_record_leaves_no_trace[OF a b c d e f g, of no_files] a b h
  show ?thesis by blast
qed

section \<open>Passes of the loop\<close>

lemma loop_body_total:
  "loop_body env h r st = Inr st' \<Longrightarrow> totalRecords st' = totalRecords st + 1"
  by (auto simp: loop_body_def Let_def split: if_splits prod.splits option.splits sum.splits)

lemma records_loop_append:
  "records_loop env h (xs @ ys) st =
     (case records_loop env h xs st of
        (None, st1) \<Rightarrow> records_loop env h ys st1
      | (Some e, st1) \<Rightarrow> (Some e, st1))"
proof (induction xs arbitrary: st)
  case Nil
  show ?case by simp
next
  case (Cons x xs)
  show ?case
  proof (cases x)
    case (Failed c)
    then show ?thesis by simp
  next
    case (Record r)
    then show ?thesis by (cases "loop_body env h r st") (auto simp: Cons.IH)
  qed
qed

section \<open>Runs without output failures\<close>

text \<open>An environment in which no output operation fails.\<close>

definition healthy :: "Env \<Rightarrow> bool" where
  "healthy env \<longleftrightarrow> (\<forall>p. os_Create env p = None) \<and> (\<forall>p n. write_error env p n = None)"

lemma createNewFile_progress:
  assumes "healthy env"
  shows "\<exists>s' w'. createNewFile env h s w = (None, s', w')"
  using assms by (simp add: createNewFile_def Let_def Writer_Write_def healthy_def)

lemma loop_body_progress:
  assumes "healthy env" "holds cfg st ps"
  shows "\<exists>st'. loop_body env h r st = Inr st'"
proof (cases "SkipEmpty (config (spl st)) \<and> isEmptyRecord r")
  case True
  then show ?thesis by (simp add: loop_body_def Let_def)
next
  case False
  note skip = this
  from assms(2) have cfg: "config (spl st) = cfg" and ne: "ps \<noteq> []"
    and pn: "partNumber (spl st) = length ps + 1"
    and wr: "writer (spl st) = Some \<lparr>wComma = Delimiter cfg, dest = part_path cfg (length ps)\<rparr>"
    and fh: "files_hold cfg (world st) ps"
    by (simp_all add: holds_def)
  show ?thesis
  proof (cases "MaxRecords (config (spl st)) \<le> int (recordCount st)")
    case True
    from createNewFile_progress[OF assms(1)] obtain s1 w1 where
      c: "createNewFile env h (spl st) (world st) = (None, s1, w1)" by blast
    note ok = createNewFile_ok[OF c cfg pn fh]
    then have "files w1 (part_path cfg (Suc (length ps))) \<noteq> None"
      by (simp add: files_hold_def nth_append)
    with ok assms(1) skip True c show ?thesis
      by (auto simp: loop_body_def Let_def Writer_Write_def healthy_def split: option.splits)
  next
    case False
    from ne obtain n where n: "length ps = Suc n" by (cases ps) auto
    with fh have "files (world st) (part_path cfg (length ps)) \<noteq> None"
      by (simp add: files_hold_def)
    with assms(1) skip False wr show ?thesis
      by (auto simp: loop_body_def Let_def Writer_Write_def healthy_def split: option.splits)
  qed
qed

lemma records_loop_progress:
  assumes "healthy env" "holds cfg st ps"
  shows "\<exists>st'. records_loop env h (map Record recs) st = (None, st')"
  using assms(2)
proof (induction recs arbitrary: st ps)
  case Nil
  then show ?case by simp
next
  case (Cons r recs)
  from loop_body_progress[OF assms(1) Cons.prems] obtain st1 where
    b: "loop_body env h r st = Inr st1" by blast
  from loop_body_holds[OF Cons.prems b] Cons.IH obtain st' where
    "records_loop env h (map Record recs) st1 = (None, st')" by blast
  with b show ?case by simp
qed

lemma records_loop_total:
  assumes "records_loop env h (map Record recs) st = (None, st')"
  shows "totalRecords st' = totalRecords st + length recs"
  using assms
proof (induction recs arbitrary: st)
  case Nil
  then show ?case by simp
next
  case (Cons r recs)
  then obtain st1 where b: "loop_body env h r st = Inr st1"
    and l: "records_loop env h (map Record recs) st1 = (None, st')"
    by (auto split: sum.splits prod.splits)
  from Cons.IH[OF l] loop_body_total[OF b] show ?case by simp
qed

lemma Split_first_file:
  assumes "healthy env"
  shows "\<exists>s1 w1. createNewFile env h (NewCSVSplitter cfg) w = (None, s1, w1) \<and>
           holds cfg \<lparr>spl = s1, world = w1, recordCount = 0, totalRecords = 0\<rparr> [[h]]"
proof -
  from createNewFile_progress[OF assms] obtain s1 w1 where
    c: "createNewFile env h (NewCSVSplitter cfg) w = (None, s1, w1)" by blast
  have "config s1 = cfg \<and> partNumber s1 = length ([]::fields list list) + 2 \<and>
         writer s1 = Some \<lparr>wComma = Delimiter cfg, dest = part_path cfg (length ([]::fields list list) + 1)\<rparr> \<and>
         files_hold cfg w1 ([] @ [[h]])"
    by (rule createNewFile_ok[OF c]) (simp_all add: NewCSVSplitter_def files_hold_def)
  then have "holds cfg \<lparr>spl = s1, world = w1, recordCount = 0, totalRecords = 0\<rparr> [[h]]"
    by (simp add: holds_def)
  with c show ?thesis by blast
qed


lemma run_error_at_failure:
  assumes "os_Open env (InputPath cfg) = Inr f"
    and "f (createReader (NewCSVSplitter cfg)) = Record header # map Record recs @ Failed c # post"
    and "header \<noteq> []" and "healthy env"
  shows "run_error env cfg w = Some (RecordReadError (length recs + 2) c)"
proof -
  let ?s = "NewCSVSplitter cfg"
  have o: "openInputFile env ?s = Inr f"
    using assms(1) by (simp add: openInputFile_def NewCSVSplitter_def)
  have rh: "readHeader (f (createReader ?s)) = Inr (header, map Record recs @ Failed c # post)"
    using assms(2,3) by simp
  let ?w1 = "Printf (Verbose (config ?s)) (MaxRecordsMsg (MaxRecords (config ?s)))
                (Printf (Verbose (config ?s)) (StartMsg (InputPath (config ?s))) w)"
  from Split_first_file[OF assms(4), of header cfg ?w1] obtain s1 w1 where
    cr: "createNewFile env header ?s ?w1 = (None, s1, w1)"
    and h: "holds cfg \<lparr>spl = s1, world = w1, recordCount = 0, totalRecords = 0\<rparr> [[header]]"
    by blast
  let ?st = "\<lparr>spl = s1, world = w1, recordCount = 0, totalRecords = 0\<rparr>"
  from records_loop_progress[OF assms(4) h] obtain st1 where
    l: "records_loop env header (map Record recs) ?st = (None, st1)" by blast
  from records_loop_total[OF l] have t: "totalRecords st1 = length recs" by simp
  have "records_loop env header (map Record recs @ Failed c # post) ?st =
          (Some (RecordReadError (length recs + 2) c), st1)"
    by (simp add: records_loop_append l t)
  from Split_unfold[OF o rh cr this] show ?thesis by (simp add: run_error_def)
qed

section \<open>The delimiter flag\<close>

text \<open>
  \<open>parseFlags\<close> after \<open>flag.Parse()\<close>: \<open>Flags\<close> holds the value of every flag, and the
  configuration copies them, but for the delimiter: a string of length 1 (Go's \<open>len\<close>,
  which counts bytes) gives its byte as a rune, any other string the comma.
\<close>

record Flags =
  flag_input :: string
  flag_out :: string
  flag_dir :: string
  flag_limit :: int
  flag_buffer :: int
  flag_skip_empty :: bool
  flag_verbose :: bool
  flag_delimiter :: string

definition parseFlags :: "Flags \<Rightarrow> Config" where
  "parseFlags fl =
     \<lparr>InputPath = flag_input fl, OutputPrefix = flag_out fl, OutputDir = flag_dir fl,
      MaxRecords = flag_limit fl, BufferSize = flag_buffer fl, SkipEmpty = flag_skip_empty fl,
      Delimiter = (if length (flag_delimiter fl) = 1 then of_char (flag_delimiter fl ! 0) else 44),
      Verbose = flag_verbose fl\<rparr>"

text \<open>
  What the claim calls a character is a code point. In a UTF-8 string every byte but
  the continuation bytes (\<open>10xxxxxx\<close>, 128 to 191) starts one, so \<open>utf8_chars\<close> counts
  the characters of a well-formed string. \<open>e_acute\<close> is the letter U+00E9, one character
  of two bytes.
\<close>

definition utf8_chars :: "string \<Rightarrow> nat" where
  "utf8_chars s = length (filter (\<lambda>c. \<not> (128 \<le> (of_char c :: nat) \<and> (of_char c :: nat) < 192)) s)"

definition default_flags :: Flags where
  "default_flags =
     \<lparr>flag_input = ''in.csv'', flag_out = ''output'', flag_dir = ''.'', flag_limit = 10000,
      flag_buffer = 65536, flag_skip_empty = True, flag_verbose = False, flag_delimiter = '',''\<rparr>"

definition e_acute :: string where
  "e_acute = [CHR 0xC3, CHR 0xA9]"

text \<open>
  \<open>written_with d w0 w\<close>: every file of \<open>w\<close> is as it is in \<open>w0\<close>, or holds only lines
  written with the separator \<open>d\<close>. \<open>writer_ok\<close>: the open writer has the separator \<open>d\<close>
  and its file is of the second kind.
\<close>

definition written_with :: "rune \<Rightarrow> World \<Rightarrow> World \<Rightarrow> bool" where
  "written_with d w0 w \<longleftrightarrow>
     (\<forall>p. files w p = files w0 p \<or> (\<exists>ls. files w p = Some ls \<and> (\<forall>l \<in> set ls. fst l = d)))"

definition writer_ok :: "rune \<Rightarrow> CSVSplitter \<Rightarrow> World \<Rightarrow> bool" where
  "writer_ok d s w \<longleftrightarrow>
     (\<forall>wr. writer s = Some wr \<longrightarrow>
        wComma wr = d \<and> (\<exists>ls. files w (dest wr) = Some ls \<and> (\<forall>l \<in> set ls. fst l = d)))"

lemma createNewFile_written:
  assumes "createNewFile env h s w = (e, s', w')" "written_with (Delimiter (config s)) w0 w"
  shows "written_with (Delimiter (config s)) w0 w' \<and> writer_ok (Delimiter (config s)) s' w' \<and>
         config s' = config s"
  using assms
  by (auto simp: createNewFile_def Let_def Writer_Write_def Printf_def written_with_def writer_ok_def
      closeCurrentFile_def split: option.splits if_splits)

text \<open>Both, for the state of the loop and the separator of its configuration.\<close>

definition touched_ok :: "World \<Rightarrow> Run \<Rightarrow> bool" where
  "touched_ok w0 st \<longleftrightarrow>
     written_with (Delimiter (config (spl st))) w0 (world st) \<and>
     writer_ok (Delimiter (config (spl st))) (spl st) (world st)"

lemma Writer_Write_written:
  assumes "Writer_Write env wr r w = (e, w')" "written_with d w0 w" "writer_ok d s w"
    "writer s = Some wr"
  shows "written_with d w0 w' \<and> writer_ok d s w'"
  using assms
  by (auto simp: Writer_Write_def written_with_def writer_ok_def split: option.splits if_splits)

text \<open>
  The end of the loop body, from \<open>s.writer.Write(record)\<close> on, and the loop body in
  terms of it.
\<close>

definition write_step :: "Env \<Rightarrow> fields \<Rightarrow> Run \<Rightarrow> (error \<times> Run) + Run" where
  "write_step env r st =
     (case writer (spl st) of
        None \<Rightarrow> Inl (NilWriterPanic, st)
      | Some wr \<Rightarrow>
          (case Writer_Write env wr r (world st) of
             (Some e, w') \<Rightarrow> Inl (RecordWriteError (totalRecords st + 1) e, st\<lparr>world := w'\<rparr>)
           | (None, w') \<Rightarrow> Inr (st\<lparr>world := w', recordCount := recordCount st + 1\<rparr>)))"

lemma loop_body_cases:
  "loop_body env h r st =
     (if SkipEmpty (config (spl st)) \<and> isEmptyRecord r
      then Inr (st\<lparr>totalRecords := totalRecords st + 1\<rparr>)
      else if MaxRecords (config (spl st)) \<le> int (recordCount st)
      then (case createNewFile env h (spl st) (world st) of
              (Some e, s', w') \<Rightarrow>
                Inl (e, st\<lparr>totalRecords := totalRecords st + 1, spl := s', world := w'\<rparr>)
            | (None, s', w') \<Rightarrow>
                write_step env r (st\<lparr>totalRecords := totalRecords st + 1, spl := s', world := w',
                                    recordCount := 0\<rparr>))
      else write_step env r (st\<lparr>totalRecords := totalRecords st + 1\<rparr>))"
  by (simp add: loop_body_def write_step_def Let_def split: prod.splits option.splits)

lemma write_step_written:
  assumes "touched_ok w0 st"
  shows "case write_step env r st of
           Inl (e, st') \<Rightarrow> touched_ok w0 st' \<and> config (spl st') = config (spl st)
         | Inr st' \<Rightarrow> touched_ok w0 st' \<and> config (spl st') = config (spl st)"
proof (cases "writer (spl st)")
  case None
  with assms show ?thesis by (simp add: write_step_def)
next
  case (Some wr)
  obtain e w' where ww: "Writer_Write env wr r (world st) = (e, w')"
    by (cases "Writer_Write env wr r (world st)") auto
  from assms have wok: "written_with (Delimiter (config (spl st))) w0 (world st)"
    "writer_ok (Delimiter (config (spl st))) (spl st) (world st)"
    by (simp_all add: touched_ok_def)
  have "written_with (Delimiter (config (spl st))) w0 w' \<and>
        writer_ok (Delimiter (config (spl st))) (spl st) w'"
    by (rule Writer_Write_written[OF ww wok Some])
  with Some ww show ?thesis by (cases e) (simp_all add: write_step_def touched_ok_def)
qed

lemma loop_body_written:
  assumes "touched_ok w0 st"
  shows "case loop_body env h r st of
           Inl (e, st') \<Rightarrow> touched_ok w0 st' \<and> config (spl st') = config (spl st)
         | Inr st' \<Rightarrow> touched_ok w0 st' \<and> config (spl st') = config (spl st)"
proof -
  let ?d = "Delimiter (config (spl st))"
  let ?st1 = "st\<lparr>totalRecords := totalRecords st + 1\<rparr>"
  from assms have w: "written_with ?d w0 (world st)" by (simp add: touched_ok_def)
  from assms have t1: "touched_ok w0 ?st1" by (simp add: touched_ok_def)
  obtain e s' w' where c: "createNewFile env h (spl st) (world st) = (e, s', w')"
    by (cases "createNewFile env h (spl st) (world st)") auto
  note cw = createNewFile_written[OF c w]
  let ?st2 = "st\<lparr>totalRecords := totalRecords st + 1, spl := s', world := w', recordCount := 0\<rparr>"
  from cw have t2: "touched_ok w0 ?st2" by (simp add: touched_ok_def)
  from cw have t3: "touched_ok w0 (st\<lparr>totalRecords := totalRecords st + 1, spl := s', world := w'\<rparr>)"
    by (simp add: touched_ok_def)
  note a = write_step_written[OF t1, of env r] and b = write_step_written[OF t2, of env r]
  show ?thesis
    unfolding loop_body_cases using t1 t3 a b cw
    by (cases e) (auto simp: c split: sum.splits prod.splits)
qed

lemma records_loop_written:
  assumes "touched_ok w0 st"
  shows "touched_ok w0 (snd (records_loop env h rs st)) \<and>
         config (spl (snd (records_loop env h rs st))) = config (spl st)"
  using assms
proof (induction rs arbitrary: st)
  case Nil
  then show ?case by simp
next
  case (Cons x rs)
  show ?case
  proof (cases x)
    case (Failed c)
    with Cons.prems show ?thesis by simp
  next
    case (Record r)
    from loop_body_written[OF Cons.prems, of env h r] Cons.IH show ?thesis
      by (cases "loop_body env h r st") (auto simp: Record)
  qed
qed

lemma written_with_refl:
  "files w1 = files w0 \<Longrightarrow> written_with d w0 w1"
  by (simp add: written_with_def)

lemma written_with_files:
  "files w2 = files w1 \<Longrightarrow> written_with d w0 w1 \<Longrightarrow> written_with d w0 w2"
  by (simp add: written_with_def)

lemma Split_written:
  "written_with (Delimiter cfg) w (snd (snd (Split env (NewCSVSplitter cfg) w)))"
proof -
  let ?s = "NewCSVSplitter cfg"
  have cfg: "config ?s = cfg" by (simp add: NewCSVSplitter_def)
  show ?thesis
  proof (cases "openInputFile env ?s")
    case (Inl e)
    then show ?thesis by (simp add: Split_def written_with_refl)
  next
    case (Inr f)
    note o = this
    show ?thesis
    proof (cases "readHeader (f (createReader ?s))")
      case (Inl e)
      with o show ?thesis by (simp add: Split_def written_with_refl)
    next
      case (Inr hr)
      obtain h rest where hr: "hr = (h, rest)" by (cases hr) auto
      let ?w1 = "Printf (Verbose (config ?s)) (MaxRecordsMsg (MaxRecords (config ?s)))
                (Printf (Verbose (config ?s)) (StartMsg (InputPath (config ?s))) w)"
      obtain e s1 w1 where c: "createNewFile env h ?s ?w1 = (e, s1, w1)"
        by (cases "createNewFile env h ?s ?w1") auto
      have "written_with (Delimiter (config ?s)) w ?w1"
        by (rule written_with_refl) (simp add: Printf_def)
      note cw = createNewFile_written[OF c this]
      show ?thesis
      proof (cases e)
        case (Some err)
        with o Inr hr c cw show ?thesis by (simp add: Split_def Let_def cfg)
      next
        case None
        let ?st = "\<lparr>spl = s1, world = w1, recordCount = 0, totalRecords = 0\<rparr>"
        obtain e1 st1 where l: "records_loop env h rest ?st = (e1, st1)"
          by (cases "records_loop env h rest ?st") auto
        from cw have "touched_ok w ?st" by (simp add: touched_ok_def)
        from records_loop_written[OF this, of env h rest] l
        have "touched_ok w st1" "config (spl st1) = config s1" by simp_all
        with cw have "written_with (Delimiter cfg) w (world st1)"
          by (simp add: touched_ok_def cfg)
        moreover have "files (snd (snd (Split env ?s w))) = files (world st1)"
          using Split_unfold[OF o Inr[unfolded hr] c[unfolded None] l] by (simp add: Printf_def)
        ultimately show ?thesis by (rule written_with_files[rotated])
      qed
    qed
  qed
qed

lemma Split_reads_through:
  assumes "os_Open env (InputPath cfg) = Inr f" "os_Open env' (InputPath cfg) = Inr f'"
    and "f' (createReader (NewCSVSplitter cfg)) = f (createReader (NewCSVSplitter cfg))"
    and "os_Create env' = os_Create env" "write_error env' = write_error env"
  shows "Split env' (NewCSVSplitter cfg) w = Split env (NewCSVSplitter cfg) w"
proof -
  have o: "openInputFile env (NewCSVSplitter cfg) = Inr f" "openInputFile env' (NewCSVSplitter cfg) = Inr f'"
    using assms(1,2) by (simp_all add: openInputFile_def NewCSVSplitter_def)
  note cong = env_cong[OF assms(4,5)]
  show ?thesis unfolding Split_def cong by (simp add: o assms(3))
qed

text \<open>
  As stated, claim C7 says that a delimiter value of exactly one character is used as
  the separator. \<open>len\<close> counts bytes: for the one-character value \<open>e_acute\<close> the program
  falls back to the comma, for reading and for writing.
\<close>

theorem delimiter_flag_counterexample:
  "utf8_chars e_acute = 1 \<and> e_acute \<noteq> '','' \<and>
   Delimiter (parseFlags (default_flags\<lparr>flag_delimiter := e_acute\<rparr>)) = 44 \<and>
   Comma (createReader (NewCSVSplitter (parseFlags (default_flags\<lparr>flag_delimiter := e_acute\<rparr>)))) = 44 \<and>
   run_files (sample_env people) (parseFlags (default_flags\<lparr>flag_delimiter := e_acute\<rparr>)) no_files
       (OutPath ''.'' ''output'' 1) =
     Some [(44, [''name'', ''age'']), (44, [''Alice'', ''30'']), (44, [''Bob'', ''25'']),
           (44, [''Carol'', ''40''])]"
  by code_simp

text \<open>
  Claim C7, amended. A delimiter value of exactly one byte (a single ASCII character,
  for instance) gives that byte as the separator; any other value, also a single
  character that UTF-8 encodes in several bytes, gives the comma. The separator of the
  configuration is the one used for reading and for writing: \<open>Split\<close> reads the input
  only through a reader with that separator (two inputs that such a reader reads alike
  give the same run), and every file that a run touches holds only lines written with
  that separator, whether the run completes or fails.
\<close>

theorem delimiter_flag:
  assumes "cfg = parseFlags fl"
  shows "(length (flag_delimiter fl) = 1 \<longrightarrow> Delimiter cfg = of_char (flag_delimiter fl ! 0)) \<and>
         (length (flag_delimiter fl) \<noteq> 1 \<longrightarrow> Delimiter cfg = 44) \<and>
         createReader (NewCSVSplitter cfg) =
           \<lparr>Comma = Delimiter cfg, LazyQuotes = True, TrimLeadingSpace = True\<rparr> \<and>
         (\<forall>env env' f f' w.
            os_Open env (InputPath cfg) = Inr f \<and> os_Open env' (InputPath cfg) = Inr f' \<and>
            f' \<lparr>Comma = Delimiter cfg, LazyQuotes = True, TrimLeadingSpace = True\<rparr> =
              f \<lparr>Comma = Delimiter cfg, LazyQuotes = True, TrimLeadingSpace = True\<rparr> \<and>
            os_Create env' = os_Create env \<and> write_error env' = write_error env \<longrightarrow>
            Split env' (NewCSVSplitter cfg) w = Split env (NewCSVSplitter cfg) w) \<and>
         (\<forall>env w p. run_files env cfg w p = files w p \<or>
            (\<exists>ls. run_files env cfg w p = Some ls \<and> (\<forall>l \<in> set ls. fst l = Delimiter cfg)))"
proof -
  have 1: "length (flag_delimiter fl) = 1 \<longrightarrow> Delimiter cfg = of_char (flag_delimiter fl ! 0)"
    and 2: "length (flag_delimiter fl) \<noteq> 1 \<longrightarrow> Delimiter cfg = 44"
    by (simp_all add: assms parseFlags_def)
  have 3: "createReader (NewCSVSplitter cfg) =
           \<lparr>Comma = Delimiter cfg, LazyQuotes = True, TrimLeadingSpace = True\<rparr>"
    by (simp add: createReader_def NewReader_def NewCSVSplitter_def)
  have 4: "\<forall>env env' f f' w.
            os_Open env (InputPath cfg) = Inr f \<and> os_Open env' (InputPath cfg) = Inr f' \<and>
            f' \<lparr>Comma = Delimiter cfg, LazyQuotes = True, TrimLeadingSpace = True\<rparr> =
              f \<lparr>Comma = Delimiter cfg, LazyQuotes = True, TrimLeadingSpace = True\<rparr> \<and>
            os_Create env' = os_Create env \<and> write_error env' = write_error env \<longrightarrow>
            Split env' (NewCSVSplitter cfg) w = Split env (NewCSVSplitter cfg) w"
    using Split_reads_through[of _ cfg _ _ _] unfolding 3 by blast
  have 5: "\<forall>env w p. run_files env cfg w p = files w p \<or>
            (\<exists>ls. run_files env cfg w p = Some ls \<and> (\<forall>l \<in> set ls. fst l = Delimiter cfg))"
    using Split_written[of cfg _ _] by (simp add: written_with_def run_files_def)
  show ?thesis by (intro conjI 1 2 3 4 5)
qed

theorem delimiter_flag_witness:
  "length '';'' = 1 \<and>
   Delimiter (parseFlags (default_flags\<lparr>flag_delimiter := '';''\<rparr>)) = 59 \<and>
   Delimiter (parseFlags (default_flags\<lparr>flag_delimiter := ''ab''\<rparr>)) = 44 \<and>
   Comma (createReader (NewCSVSplitter (parseFlags (default_flags\<lparr>flag_delimiter := '';''\<rparr>)))) = 59 \<and>
   run_files (sample_env people) (parseFlags (default_flags\<lparr>flag_delimiter := '';''\<rparr>)) no_files
       (OutPath ''.'' ''output'' 1) =
     Some [(59, [''name'', ''age'']), (59, [''Alice'', ''30'']), (59, [''Bob'', ''25'']),
           (59, [''Carol'', ''40''])]"
proof -
  let ?fl = "default_flags\<lparr>flag_delimiter := '';''\<rparr>"
  let ?fl2 = "default_flags\<lparr>flag_delimiter := ''ab''\<rparr>"
  have l: "length (flag_delimiter ?fl) = 1" "length (flag_delimiter ?fl2) \<noteq> 1" by simp_all
  from delimiter_flag[OF refl, of ?fl] l(1)
  have a: "Delimiter (parseFlags ?fl) = of_char (flag_delimiter ?fl ! 0)"
    and c: "createReader (NewCSVSplitter (parseFlags ?fl)) =
           \<lparr>Comma = Delimiter (parseFlags ?fl), LazyQuotes = True, TrimLeadingSpace = True\<rparr>"
    by blast+
  from delimiter_flag[OF refl, of ?fl2] l(2)
  have b: "Delimiter (parseFlags ?fl2) = 44" by blast
  have a': "Delimiter (parseFlags ?fl) = 59" using a by simp
  have c': "Comma (createReader (NewCSVSplitter (parseFlags ?fl))) = 59" by (simp add: c a')
  have d: "run_files (sample_env people) (parseFlags ?fl) no_files (OutPath ''.'' ''output'' 1) =
     Some [(59, [''name'', ''age'']), (59, [''Alice'', ''30'']), (59, [''Bob'', ''25'']),
           (59, [''Carol'', ''40''])]"
    by code_simp
  have e: "length '';'' = 1" by simp
  show ?thesis by (intro conjI e a' b c' d)
qed

section \<open>The record reader of the standard library\<close>

text \<open>
  Both programs read their input through \<open>encoding/csv\<close> of Go's standard library,
  which is not part of the repository. The definitions of this section follow the
  library's \<open>Reader.readLine\<close> and \<open>Reader.readRecord\<close>, for a reader whose \<open>Comment\<close> is 0
  and whose \<open>FieldsPerRecord\<close> starts at 0, as \<open>csv.NewReader\<close> leaves them and as both
  programs use it. Read errors of the underlying file are not modelled.

  \<open>ValidRune\<close>, \<open>EncodeRune\<close> (for valid runes), \<open>IndexByte\<close>, \<open>Index\<close>, \<open>IndexRune\<close> and
  \<open>HasPrefix\<close> are the functions of \<open>unicode/utf8\<close> and \<open>bytes\<close> that the reader calls.
  \<open>nextRune(line) == r.Comma\<close> holds exactly when \<open>line\<close> starts with the encoding of the
  separator, which \<open>validDelim\<close> has checked to be a valid rune.
\<close>

definition ValidRune :: "rune \<Rightarrow> bool" where
  "ValidRune r \<longleftrightarrow> (0 \<le> r \<and> r < 0xD800) \<or> (0xDFFF < r \<and> r \<le> 0x10FFFF)"

definition validDelim :: "rune \<Rightarrow> bool" where
  "validDelim r \<longleftrightarrow>
     r \<noteq> 0 \<and> r \<noteq> 0x22 \<and> r \<noteq> 0x0D \<and> r \<noteq> 0x0A \<and> ValidRune r \<and> r \<noteq> 0xFFFD"

definition EncodeRune :: "rune \<Rightarrow> string" where
  "EncodeRune r =
     (if r < 0x80 then [char_of r]
      else if r < 0x800 then [char_of (0xC0 + r div 64), char_of (0x80 + r mod 64)]
      else if r < 0x10000 then
        [char_of (0xE0 + r div 4096), char_of (0x80 + r div 64 mod 64), char_of (0x80 + r mod 64)]
      else
        [char_of (0xF0 + r div 262144), char_of (0x80 + r div 4096 mod 64),
         char_of (0x80 + r div 64 mod 64), char_of (0x80 + r mod 64)])"

fun IndexByte :: "char \<Rightarrow> string \<Rightarrow> nat option" where
  "IndexByte c [] = None"
| "IndexByte c (x # xs) = (if x = c then Some 0 else map_option Suc (IndexByte c xs))"

definition HasPrefix :: "string \<Rightarrow> string \<Rightarrow> bool" where
  "HasPrefix s p \<longleftrightarrow> take (length p) s = p"

fun Index :: "string \<Rightarrow> string \<Rightarrow> nat option" where
  "Index [] sep = (if sep = [] then Some 0 else None)"
| "Index (x # xs) sep =
     (if HasPrefix (x # xs) sep then Some 0 else map_option Suc (Index xs sep))"

definition IndexRune :: "string \<Rightarrow> rune \<Rightarrow> nat option" where
  "IndexRune s r = Index s (EncodeRune r)"

definition lengthNL :: "string \<Rightarrow> nat" where
  "lengthNL b = (if b \<noteq> [] \<and> last b = CHR 0x0A then 1 else 0)"

text \<open>
  \<open>space_width\<close> is the number of bytes of the white space character (\<open>unicode.IsSpace\<close>)
  that a string starts with, 0 when it starts with none: tab, line feed, vertical tab,
  form feed, carriage return, space, U+0085, U+00A0, U+1680, U+2000 to U+200A, U+2028,
  U+2029, U+202F, U+205F and U+3000, in UTF-8. \<open>trimLeadingSpace\<close> is
  \<open>line[bytes.IndexFunc(line, not a space):]\<close>.
\<close>

definition space_width :: "string \<Rightarrow> nat" where
  "space_width s =
     (case s of
        [] \<Rightarrow> 0
      | c # cs \<Rightarrow>
          if c \<in> {CHR 0x09, CHR 0x0A, CHR 0x0B, CHR 0x0C, CHR 0x0D, CHR 0x20} then 1
          else if c = CHR 0xC2 then
            (if HasPrefix cs [CHR 0x85] \<or> HasPrefix cs [CHR 0xA0] then 2 else 0)
          else if c = CHR 0xE1 then (if HasPrefix cs [CHR 0x9A, CHR 0x80] then 3 else 0)
          else if c = CHR 0xE2 then
            (case cs of
               d # e # _ \<Rightarrow>
                 if (d = CHR 0x80 \<and>
                      ((0x80 \<le> (of_char e :: nat) \<and> (of_char e :: nat) \<le> 0x8A) \<or>
                       e = CHR 0xA8 \<or> e = CHR 0xA9 \<or> e = CHR 0xAF)) \<or>
                    (d = CHR 0x81 \<and> e = CHR 0x9F)
                 then 3 else 0
             | _ \<Rightarrow> 0)
          else if c = CHR 0xE3 then (if HasPrefix cs [CHR 0x80, CHR 0x80] then 3 else 0)
          else 0)"

lemma space_width_nonempty: "space_width s \<noteq> 0 \<Longrightarrow> s \<noteq> []"
  by (auto simp: space_width_def)

function trimLeadingSpace :: "string \<Rightarrow> string" where
  "trimLeadingSpace s = (if space_width s = 0 then s else trimLeadingSpace (drop (space_width s) s))"
  by pat_completeness auto
termination
proof (relation "measure length")
  show "wf (measure length)" by simp
next
  fix s :: string
  assume "space_width s \<noteq> 0"
  then have "0 < space_width s" "0 < length s" using space_width_nonempty[of s] by auto
  then show "(drop (space_width s) s, s) \<in> measure length" by simp
qed

text \<open>
  \<open>readLine\<close> returns the next line with its line feed and the rest of the input;
  \<open>None\<close> is \<open>io.EOF\<close>. A carriage return before the end of the input is dropped, and
  a carriage return before the line feed.
\<close>

fun ReadSlice :: "string \<Rightarrow> string \<times> string" where
  "ReadSlice [] = ([], [])"
| "ReadSlice (c # cs) =
     (if c = CHR 0x0A then ([c], cs)
      else (case ReadSlice cs of (line, rest) \<Rightarrow> (c # line, rest)))"

definition readLine :: "string \<Rightarrow> (string \<times> string) option" where
  "readLine inp =
     (if inp = [] then None
      else
        (case ReadSlice inp of
           (line, rest) \<Rightarrow>
             (let line1 = (if last line \<noteq> CHR 0x0A \<and> last line = CHR 0x0D then butlast line else line);
                  n = length line1;
                  line2 = (if n \<ge> 2 \<and> line1 ! (n - 2) = CHR 0x0D \<and> line1 ! (n - 1) = CHR 0x0A
                           then take (n - 2) line1 @ [CHR 0x0A] else line1)
              in Some (line2, rest))))"

lemma length_trimLeadingSpace: "length (trimLeadingSpace s) \<le> length s"
proof (induction s rule: trimLeadingSpace.induct)
  case (1 s)
  show ?case
  proof (cases "space_width s = 0")
    case True
    then show ?thesis by (subst trimLeadingSpace.simps) simp
  next
    case False
    from 1[OF False] have "length (trimLeadingSpace (drop (space_width s) s)) \<le> length s" by simp
    with False show ?thesis by (subst trimLeadingSpace.simps) simp
  qed
qed

lemma length_ReadSlice: "ReadSlice inp = (line, rest) \<Longrightarrow> length line + length rest = length inp"
  by (induction inp arbitrary: line rest) (auto split: if_splits prod.splits)

lemma ReadSlice_nonempty: "inp \<noteq> [] \<Longrightarrow> ReadSlice inp = (line, rest) \<Longrightarrow> line \<noteq> []"
  by (cases inp) (auto split: if_splits prod.splits)

lemma readLine_length:
  assumes "readLine inp = Some (line, rest)"
  shows "length line + length rest \<le> length inp" "length rest < length inp"
proof -
  from assms have ne: "inp \<noteq> []" by (auto simp: readLine_def split: if_splits)
  obtain l r where rs: "ReadSlice inp = (l, r)" by (cases "ReadSlice inp") auto
  note len = length_ReadSlice[OF rs] and lne = ReadSlice_nonempty[OF ne rs]
  from assms ne rs have r: "rest = r" and "length line \<le> length l"
    by (auto simp: readLine_def Let_def split: if_splits)
  with len show "length line + length rest \<le> length inp" by simp
  from lne len r show "length rest < length inp" by (cases l) auto
qed

lemma EncodeRune_nonempty: "EncodeRune r \<noteq> []"
  by (simp add: EncodeRune_def)

lemma Index_nonempty: "Index s sep = Some k \<Longrightarrow> sep \<noteq> [] \<Longrightarrow> k < length s"
  by (induction s arbitrary: k) (auto split: if_splits)

lemma IndexByte_less: "IndexByte c s = Some k \<Longrightarrow> k < length s"
  by (induction s arbitrary: k) (auto split: if_splits)

text \<open>
  The loop \<open>parseField\<close> of \<open>readRecord\<close>: \<open>parseField\<close> is one pass from its label, for
  the fields \<open>fs\<close> read so far, the rest \<open>line0\<close> of the line and the rest \<open>inp\<close> of the
  input; \<open>quotedField\<close> is the inner loop of a quoted field, whose text so far is \<open>buf\<close>.
  The result is the fields, the error (\<open>None\<close> is \<open>nil\<close>) and the input left.
\<close>

lemma less_add_nonempty: "xs \<noteq> [] \<Longrightarrow> (m::nat) \<le> n \<Longrightarrow> m < length xs + n"
  by (cases xs) auto

function parseField :: "Reader \<Rightarrow> fields \<Rightarrow> string \<Rightarrow> string \<Rightarrow> fields \<times> cause option \<times> string"
  and quotedField :: "Reader \<Rightarrow> fields \<Rightarrow> string \<Rightarrow> string \<Rightarrow> string \<Rightarrow> fields \<times> cause option \<times> string"
  where
  "parseField rd fs line0 inp =
     (let line = (if TrimLeadingSpace rd then trimLeadingSpace line0 else line0) in
      if line = [] \<or> hd line \<noteq> CHR 0x22 then
        (let i = IndexRune line (Comma rd);
             field = (case i of Some k \<Rightarrow> take k line
                              | None \<Rightarrow> take (length line - lengthNL line) line)
         in if \<not> LazyQuotes rd \<and> IndexByte (CHR 0x22) field \<noteq> None
            then (fs, Some ErrBareQuote, inp)
            else (case i of
                    Some k \<Rightarrow>
                      parseField rd (fs @ [field]) (drop (k + length (EncodeRune (Comma rd))) line) inp
                  | None \<Rightarrow> (fs @ [field], None, inp)))
      else quotedField rd fs [] (tl line) inp)"
| "quotedField rd fs buf line0 inp =
     (case IndexByte (CHR 0x22) line0 of
        Some i \<Rightarrow>
          (let buf1 = buf @ take i line0; line = drop (i + 1) line0 in
           if HasPrefix line [CHR 0x22] then quotedField rd fs (buf1 @ [CHR 0x22]) (tl line) inp
           else if HasPrefix line (EncodeRune (Comma rd))
             then parseField rd (fs @ [buf1]) (drop (length (EncodeRune (Comma rd))) line) inp
           else if lengthNL line = length line then (fs @ [buf1], None, inp)
           else if LazyQuotes rd then quotedField rd fs (buf1 @ [CHR 0x22]) line inp
           else (fs, Some ErrQuote, inp))
      | None \<Rightarrow>
          if line0 \<noteq> [] then
            (case readLine inp of
               Some (line, rest) \<Rightarrow> quotedField rd fs (buf @ line0) line rest
             | None \<Rightarrow> quotedField rd fs (buf @ line0) [] [])
          else if \<not> LazyQuotes rd then (fs, Some ErrQuote, inp)
          else (fs @ [buf], None, inp))"
  by pat_completeness auto
termination
proof (relation "measure (\<lambda>x. case x of Inl (rd, fs, line, inp) \<Rightarrow> length line + length inp
                                       | Inr (rd, fs, buf, line, inp) \<Rightarrow> length line + length inp)")
  show "wf (measure (\<lambda>x. case x of Inl (rd, fs, line, inp) \<Rightarrow> length line + length inp
                                       | Inr (rd, fs, buf, line, inp) \<Rightarrow> length line + length inp))"
    by simp
next
  fix rd :: Reader and fs :: fields and line0 inp line :: string and i field k
  assume l: "line = (if TrimLeadingSpace rd then trimLeadingSpace line0 else line0)"
    and i: "i = IndexRune line (Comma rd)" "i = Some k"
  have le: "length line \<le> length line0" using l length_trimLeadingSpace[of line0] by auto
  from i have "k < length line" using Index_nonempty[OF _ EncodeRune_nonempty]
    by (simp add: IndexRune_def)
  moreover have "0 < length (EncodeRune (Comma rd))" using EncodeRune_nonempty by simp
  ultimately have "length line - (k + length (EncodeRune (Comma rd))) < length line0"
    using le by arith
  then show "(Inl (rd, fs @ [field], drop (k + length (EncodeRune (Comma rd))) line, inp),
         Inl (rd, fs, line0, inp)) \<in> measure (\<lambda>x. case x of Inl (rd, fs, line, inp) \<Rightarrow> length line + length inp
                                       | Inr (rd, fs, buf, line, inp) \<Rightarrow> length line + length inp)"
    by simp
next
  fix rd :: Reader and fs :: fields and line0 inp line :: string
  assume l: "line = (if TrimLeadingSpace rd then trimLeadingSpace line0 else line0)"
    and n: "\<not> (line = [] \<or> hd line \<noteq> CHR 0x22)"
  have le: "length line \<le> length line0" using l length_trimLeadingSpace[of line0] by auto
  with n show "(Inr (rd, fs, [], tl line, inp), Inl (rd, fs, line0, inp))
      \<in> measure (\<lambda>x. case x of Inl (rd, fs, line, inp) \<Rightarrow> length line + length inp
                                       | Inr (rd, fs, buf, line, inp) \<Rightarrow> length line + length inp)"
    by (cases line) auto
qed (auto dest!: IndexByte_less readLine_length(1) simp: HasPrefix_def less_add_nonempty)

declare parseField.simps [simp del] quotedField.simps [simp del]

lemma parse_rest_length:
  "length (snd (snd (parseField rd fs line0 inp))) \<le> length inp"
  "length (snd (snd (quotedField rd fs buf line0 inp))) \<le> length inp"
proof (induction rd fs line0 inp and rd fs buf line0 inp rule: parseField_quotedField.induct)
  case (1 rd fs line0 inp)
  define line where "line = (if TrimLeadingSpace rd then trimLeadingSpace line0 else line0)"
  define i where "i = IndexRune line (Comma rd)"
  define field where "field = (case i of Some k \<Rightarrow> take k line
                              | None \<Rightarrow> take (length line - lengthNL line) line)"
  note IH1 = 1(1)[OF line_def _ i_def field_def]
  note IH2 = 1(2)[OF line_def]
  show ?case
  proof (cases "line = [] \<or> hd line \<noteq> CHR 0x22")
    case True
    note unq = this
    show ?thesis
    proof (cases "\<not> LazyQuotes rd \<and> IndexByte (CHR 0x22) field \<noteq> None")
      case True
      with unq show ?thesis
        by (subst parseField.simps) (simp add: Let_def line_def[symmetric] i_def[symmetric] field_def[symmetric])
    next
      case False
      note ok = this
      show ?thesis
      proof (cases i)
        case None
        have f: "field = take (length line - lengthNL line) line" by (simp add: field_def None)
        from unq ok None show ?thesis
          by (subst parseField.simps)
             (simp add: Let_def line_def[symmetric] i_def[symmetric] f)
      next
        case (Some k)
        have f: "field = take k line" by (simp add: field_def Some)
        from IH1[OF unq ok Some] unq ok Some show ?thesis
          by (subst parseField.simps)
             (simp add: Let_def line_def[symmetric] i_def[symmetric] f)
      qed
    qed
  next
    case False
    from IH2[OF False] False show ?thesis
      by (subst parseField.simps) (simp add: Let_def line_def[symmetric])
  qed
next
  case (2 rd fs buf line0 inp)
  show ?case
  proof (cases "IndexByte (CHR 0x22) line0")
    case None
    show ?thesis
    proof (cases "line0 = []")
      case True
      with None show ?thesis by (subst quotedField.simps) simp
    next
      case False
      note ne = this
      show ?thesis
      proof (cases "readLine inp")
        case None
        note eof = this
        from 2(1)[OF \<open>IndexByte (CHR 0x22) line0 = None\<close> ne eof]
        show ?thesis
          using \<open>IndexByte (CHR 0x22) line0 = None\<close> ne eof
          by (subst quotedField.simps) simp
      next
        case (Some x)
        obtain line rest where x: "x = (line, rest)" by (cases x) auto
        from 2(2)[OF \<open>IndexByte (CHR 0x22) line0 = None\<close> ne Some x[symmetric]]
          readLine_length(2)[of inp line rest] Some x
        show ?thesis
          using \<open>IndexByte (CHR 0x22) line0 = None\<close> ne
          by (subst quotedField.simps) simp
      qed
    qed
  next
    case (Some i)
    define buf1 where "buf1 = buf @ take i line0"
    define line where "line = drop (i + 1) line0"
    note IHa = 2(3)[OF Some buf1_def line_def]
    note IHb = 2(4)[OF Some buf1_def line_def]
    note IHc = 2(5)[OF Some buf1_def line_def]
    show ?thesis
    proof (cases "HasPrefix line [CHR 0x22]")
      case True
      from IHa[OF True] True Some show ?thesis
        by (subst quotedField.simps, simp only: option.case Let_def, fold buf1_def line_def, simp)
    next
      case False
      note nq = this
      show ?thesis
      proof (cases "HasPrefix line (EncodeRune (Comma rd))")
        case True
        from IHb[OF nq True] nq True Some show ?thesis
          by (subst quotedField.simps, simp only: option.case Let_def, fold buf1_def line_def, simp)
      next
        case False
        note nc = this
        show ?thesis
        proof (cases "lengthNL line = length line")
          case True
          with nq nc Some show ?thesis
            by (subst quotedField.simps, simp only: option.case Let_def, fold buf1_def line_def, simp)
        next
          case False
          note nn = this
          show ?thesis
          proof (cases "LazyQuotes rd")
            case True
            from IHc[OF nq nc nn True] nq nc nn True Some show ?thesis
              by (subst quotedField.simps, simp only: option.case Let_def, fold buf1_def line_def, simp)
          next
            case False
            with nq nc nn Some show ?thesis
              by (subst quotedField.simps, simp only: option.case Let_def, fold buf1_def line_def, simp)
          qed
        qed
      qed
    qed
  qed
qed

text \<open>
  Successive calls of \<open>Read\<close> until \<open>io.EOF\<close>; \<open>n\<close> is \<open>FieldsPerRecord\<close>. Empty lines
  are skipped. The list ends with the first error: both programs stop reading there.
  \<open>csv_content bytes\<close> is the file with the content \<open>bytes\<close>.
\<close>

function ReadAll :: "Reader \<Rightarrow> nat \<Rightarrow> string \<Rightarrow> read_result list" where
  "ReadAll rd n inp =
     (case readLine inp of
        None \<Rightarrow> []
      | Some (line, rest) \<Rightarrow>
          if length line = lengthNL line then ReadAll rd n rest
          else
            (case parseField rd [] line rest of
               (fs, Some e, inp') \<Rightarrow> [Failed e]
             | (fs, None, inp') \<Rightarrow>
                 if n > 0 \<and> length fs \<noteq> n then [Failed ErrFieldCount]
                 else Record fs # ReadAll rd (if n = 0 then length fs else n) inp'))"
  by pat_completeness auto
termination
proof (relation "measure (\<lambda>(rd, n, inp). length inp)")
  show "wf (measure (\<lambda>(rd, n, inp). length inp))" by simp
next
  fix rd :: Reader and n :: nat and inp line rest :: string and x
  assume "readLine inp = Some x" "(line, rest) = x"
  then have "length rest < length inp" using readLine_length(2)[of inp line rest] by simp
  then show "((rd, n, rest), rd, n, inp) \<in> measure (\<lambda>(rd, n, inp). length inp)" by simp
next
  fix rd :: Reader and n :: nat and inp line rest inp' :: string and x fs y e
  assume "readLine inp = Some x" "(line, rest) = x"
    and p: "(fs, y) = parseField rd [] line rest" "(e, inp') = y"
  then have "length rest < length inp" using readLine_length(2)[of inp line rest] by simp
  moreover from p have "inp' = snd (snd (parseField rd [] line rest))" by (metis snd_conv)
  then have "length inp' \<le> length rest" using parse_rest_length(1) by simp
  ultimately show "((rd, if n = 0 then length fs else n, inp'), rd, n, inp)
      \<in> measure (\<lambda>(rd, n, inp). length inp)" by simp
qed

declare ReadAll.simps [simp del]

definition csv_content :: "string \<Rightarrow> csv_file" where
  "csv_content bytes rd =
     (if \<not> validDelim (Comma rd) then [Failed ErrInvalidDelim] else ReadAll rd 0 bytes)"

section \<open>The minimal splitter\<close>

text \<open>
  \<open>splitCSV\<close> of the older program. \<open>Locals\<close> are the variables its closure
  \<open>createNewFile\<close> captures. It reads with the reader \<open>csv.NewReader\<close> returns and
  writes with the writer \<open>csv.NewWriter\<close> returns, both with the comma. On its error
  paths it returns without flushing the writer, so what its last file then holds is not
  determined: the model returns the world only when \<open>splitCSV\<close> returns \<open>nil\<close>.
\<close>

datatype min_error =
    MinOpenError cause
  | MinHeaderError cause
  | MinCreateError cause
  | MinHeaderWriteError cause
  | MinReadError cause
  | MinWriteError cause
  | MinNilWriterPanic

record Locals =
  part :: nat
  mRecordCount :: nat
  mWriter :: "Writer option"
  mOutFile :: "path option"

definition NewWriter :: "path \<Rightarrow> Writer" where
  "NewWriter p = \<lparr>wComma = 44, dest = p\<rparr>"

definition min_createNewFile ::
  "Env \<Rightarrow> string \<Rightarrow> fields \<Rightarrow> Locals \<Rightarrow> World \<Rightarrow> min_error option \<times> Locals \<times> World" where
  "min_createNewFile env outputPrefix header lv wld =
     (let outFilePath = OutPath ''.'' outputPrefix (part lv)
      in case os_Create env outFilePath of
           Some e \<Rightarrow> (Some (MinCreateError e), lv\<lparr>mOutFile := None\<rparr>, wld)
         | None \<Rightarrow>
             (let wld1 = wld\<lparr>files := (files wld)(outFilePath \<mapsto> [])\<rparr>;
                  lv1 = lv\<lparr>mOutFile := Some outFilePath, mWriter := Some (NewWriter outFilePath)\<rparr>
              in case Writer_Write env (NewWriter outFilePath) header wld1 of
                   (Some e, wld2) \<Rightarrow> (Some (MinHeaderWriteError e), lv1, wld2)
                 | (None, wld2) \<Rightarrow> (None, lv1\<lparr>mRecordCount := 0, part := part lv1 + 1\<rparr>, wld2)))"

fun isEmpty :: "fields \<Rightarrow> bool" where
  "isEmpty [] = True"
| "isEmpty (field # rest) = (if field \<noteq> [] then False else isEmpty rest)"

definition min_body ::
  "Env \<Rightarrow> string \<Rightarrow> int \<Rightarrow> fields \<Rightarrow> fields \<Rightarrow> Locals \<times> World \<Rightarrow> min_error + Locals \<times> World" where
  "min_body env outputPrefix maxRecords header rec st =
     (if isEmpty rec then Inr st
      else
        (case (if int (mRecordCount (fst st)) \<ge> maxRecords
               then (case min_createNewFile env outputPrefix header (fst st) (snd st) of
                       (Some e, lv', w') \<Rightarrow> Inl e
                     | (None, lv', w') \<Rightarrow> Inr (lv', w'))
               else Inr st) of
           Inl e \<Rightarrow> Inl e
         | Inr (lv, wld) \<Rightarrow>
             (case mWriter lv of
                None \<Rightarrow> Inl MinNilWriterPanic
              | Some wr \<Rightarrow>
                  (case Writer_Write env wr rec wld of
                     (Some e, w') \<Rightarrow> Inl (MinWriteError e)
                   | (None, w') \<Rightarrow> Inr (lv\<lparr>mRecordCount := mRecordCount lv + 1\<rparr>, w')))))"

fun min_loop ::
  "Env \<Rightarrow> string \<Rightarrow> int \<Rightarrow> fields \<Rightarrow> read_result list \<Rightarrow> Locals \<times> World \<Rightarrow> min_error + Locals \<times> World" where
  "min_loop env outputPrefix maxRecords header [] st = Inr st"
| "min_loop env outputPrefix maxRecords header (Failed e # rest) st = Inl (MinReadError e)"
| "min_loop env outputPrefix maxRecords header (Record rec # rest) st =
     (case min_body env outputPrefix maxRecords header rec st of
        Inl e \<Rightarrow> Inl e
      | Inr st' \<Rightarrow> min_loop env outputPrefix maxRecords header rest st')"

definition splitCSV :: "Env \<Rightarrow> string \<Rightarrow> string \<Rightarrow> int \<Rightarrow> World \<Rightarrow> min_error + World" where
  "splitCSV env inputPath outputPrefix maxRecords wld =
     (case os_Open env inputPath of
        Inl e \<Rightarrow> Inl (MinOpenError e)
      | Inr file \<Rightarrow>
          (case file NewReader of
             [] \<Rightarrow> Inl (MinHeaderError EOF)
           | Failed e # rest \<Rightarrow> Inl (MinHeaderError e)
           | Record header # rest \<Rightarrow>
               (case min_createNewFile env outputPrefix header
                       \<lparr>part = 1, mRecordCount = 0, mWriter = None, mOutFile = None\<rparr> wld of
                  (Some e, lv, wld1) \<Rightarrow> Inl e
                | (None, lv, wld1) \<Rightarrow>
                    (case min_loop env outputPrefix maxRecords header rest (lv, wld1) of
                       Inl e \<Rightarrow> Inl e
                     | Inr (lv', wld2) \<Rightarrow> Inr wld2))))"

definition splitCSV_files :: "Env \<Rightarrow> string \<Rightarrow> string \<Rightarrow> int \<Rightarrow> World \<Rightarrow> (path \<Rightarrow> line list option) option" where
  "splitCSV_files env inputPath outputPrefix maxRecords wld =
     (case splitCSV env inputPath outputPrefix maxRecords wld of
        Inl e \<Rightarrow> None
      | Inr wld' \<Rightarrow> Some (files wld'))"

definition spaced :: csv_file where
  "spaced rd =
     [Record [''a'', ''b''],
      Record (if TrimLeadingSpace rd then [''1'', ''2''] else ['' 1'', '' 2''])]"

definition file_env :: "csv_file \<Rightarrow> Env" where
  "file_env f = \<lparr>os_Open = (\<lambda>p. Inr f), os_Create = (\<lambda>p. None), write_error = (\<lambda>p n. None)\<rparr>"

text \<open>
  \<open>same_state\<close> relates the variables of \<open>splitCSV\<close> to those of \<open>Split\<close>; \<open>min_cfg\<close> is
  the configuration of the claim: skip-empty enabled, the comma, the current directory.
\<close>

definition same_state :: "Locals \<times> World \<Rightarrow> Run \<Rightarrow> bool" where
  "same_state m st \<longleftrightarrow>
     part (fst m) = partNumber (spl st) \<and> mRecordCount (fst m) = recordCount st \<and>
     mWriter (fst m) = writer (spl st) \<and> files (snd m) = files (world st)"

lemma isEmpty_eq: "isEmpty r = isEmptyRecord r"
  by (induction r) auto

lemma Writer_Write_files:
  assumes "files w = files w'"
  shows "fst (Writer_Write env wr r w) = fst (Writer_Write env wr r w') \<and>
         files (snd (Writer_Write env wr r w)) = files (snd (Writer_Write env wr r w'))"
  using assms by (simp add: Writer_Write_def split: option.splits)

lemma createNewFile_sim:
  assumes "part lv = partNumber s" "files w = files wld"
    and "Delimiter (config s) = 44" "OutputDir (config s) = ''.''"
  shows "case (min_createNewFile env (OutputPrefix (config s)) h lv w, createNewFile env h s wld) of
           ((None, lv', w'), (None, s', wld')) \<Rightarrow>
              part lv' = partNumber s' \<and> mRecordCount lv' = 0 \<and> mWriter lv' = writer s' \<and>
              files w' = files wld' \<and> config s' = config s
         | ((Some e, lv', w'), (Some e', s', wld')) \<Rightarrow> True
         | _ \<Rightarrow> False"
  using assms
  by (simp add: min_createNewFile_def createNewFile_def Let_def Writer_Write_def NewWriter_def
      Printf_def closeCurrentFile_def split: option.splits)

definition min_cfg :: "Config \<Rightarrow> bool" where
  "min_cfg cfg \<longleftrightarrow> SkipEmpty cfg \<and> Delimiter cfg = 44 \<and> OutputDir cfg = ''.''"

text \<open>The end of the loop body of \<open>splitCSV\<close>, from \<open>writer.Write(record)\<close> on.\<close>

definition min_write :: "Env \<Rightarrow> fields \<Rightarrow> Locals \<times> World \<Rightarrow> min_error + Locals \<times> World" where
  "min_write env r m =
     (case mWriter (fst m) of
        None \<Rightarrow> Inl MinNilWriterPanic
      | Some wr \<Rightarrow>
          (case Writer_Write env wr r (snd m) of
             (Some e, w') \<Rightarrow> Inl (MinWriteError e)
           | (None, w') \<Rightarrow> Inr ((fst m)\<lparr>mRecordCount := mRecordCount (fst m) + 1\<rparr>, w')))"

lemma min_body_cases:
  "min_body env prefix L h r m =
     (if isEmpty r then Inr m
      else if L \<le> int (mRecordCount (fst m))
      then (case min_createNewFile env prefix h (fst m) (snd m) of
              (Some e, lv', w') \<Rightarrow> Inl e
            | (None, lv', w') \<Rightarrow> min_write env r (lv', w'))
      else min_write env r m)"
  by (cases m) (simp add: min_body_def min_write_def split: prod.splits option.splits)

definition agree :: "min_error + Locals \<times> World \<Rightarrow> (error \<times> Run) + Run \<Rightarrow> Config \<Rightarrow> bool" where
  "agree a b cfg \<longleftrightarrow>
     (case (a, b) of
        (Inr m', Inr st') \<Rightarrow> same_state m' st' \<and> config (spl st') = cfg
      | (Inl e, Inl e') \<Rightarrow> True
      | _ \<Rightarrow> False)"

lemma write_sim:
  assumes "same_state m st"
  shows "agree (min_write env r m) (write_step env r st) (config (spl st))"
proof (cases "writer (spl st)")
  case None
  with assms show ?thesis by (simp add: write_step_def min_write_def same_state_def agree_def)
next
  case (Some wr)
  from assms have f: "files (snd m) = files (world st)" and wr: "mWriter (fst m) = Some wr"
    by (simp_all add: same_state_def Some)
  obtain e1 w1 where a: "Writer_Write env wr r (snd m) = (e1, w1)"
    by (cases "Writer_Write env wr r (snd m)") auto
  obtain e2 w2 where b: "Writer_Write env wr r (world st) = (e2, w2)"
    by (cases "Writer_Write env wr r (world st)") auto
  from Writer_Write_files[OF f, of env wr r] a b have e: "e1 = e2" and fw: "files w1 = files w2"
    by simp_all
  from assms show ?thesis
    by (cases e2) (simp_all add: write_step_def min_write_def Some wr a b e fw same_state_def agree_def)
qed

lemma body_sim:
  assumes "same_state m st" "min_cfg (config (spl st))"
  shows "agree (min_body env (OutputPrefix (config (spl st))) (MaxRecords (config (spl st))) h r m)
               (loop_body env h r st) (config (spl st))"
proof -
  let ?cfg = "config (spl st)"
  from assms(2) have sk: "SkipEmpty ?cfg" and d: "Delimiter ?cfg = 44" and dir: "OutputDir ?cfg = ''.''"
    by (simp_all add: min_cfg_def)
  from assms(1) have pn: "part (fst m) = partNumber (spl st)"
    and rc: "mRecordCount (fst m) = recordCount st"
    and f: "files (snd m) = files (world st)"
    by (simp_all add: same_state_def)
  show ?thesis
  proof (cases "isEmptyRecord r")
    case True
    with assms sk show ?thesis
      by (simp add: min_body_cases loop_body_cases isEmpty_eq same_state_def agree_def)
  next
    case False
    note ne = this
    show ?thesis
    proof (cases "MaxRecords ?cfg \<le> int (recordCount st)")
      case False
      let ?st1 = "st\<lparr>totalRecords := totalRecords st + 1\<rparr>"
      have "same_state m ?st1" using assms(1) by (simp add: same_state_def)
      from write_sim[OF this, of env r] ne False rc show ?thesis
        by (simp add: min_body_cases loop_body_cases isEmpty_eq)
    next
      case True
      obtain e1 lv1 w1 where a: "min_createNewFile env (OutputPrefix ?cfg) h (fst m) (snd m) = (e1, lv1, w1)"
        by (cases "min_createNewFile env (OutputPrefix ?cfg) h (fst m) (snd m)") auto
      obtain e2 s2 w2 where b: "createNewFile env h (spl st) (world st) = (e2, s2, w2)"
        by (cases "createNewFile env h (spl st) (world st)") auto
      note cs = createNewFile_sim[OF pn f d dir, of env h]
      show ?thesis
      proof (cases e2)
        case (Some err)
        with cs a b obtain err1 where "e1 = Some err1" by (cases e1) auto
        with Some a b ne True rc show ?thesis
          by (simp add: min_body_cases loop_body_cases isEmpty_eq agree_def)
      next
        case None
        with cs a b have e1: "e1 = None" by (cases e1) auto
        let ?st2 = "st\<lparr>totalRecords := totalRecords st + 1, spl := s2, world := w2, recordCount := 0\<rparr>"
        from cs a b None e1 have "same_state (lv1, w1) ?st2" and c2: "config s2 = ?cfg"
          by (simp_all add: same_state_def)
        from write_sim[OF this(1), of env r] ne True rc a b None e1 c2 show ?thesis
          by (simp add: min_body_cases loop_body_cases isEmpty_eq)
      qed
    qed
  qed
qed

lemma loop_sim:
  assumes "same_state m st" "min_cfg (config (spl st))"
  shows "case (min_loop env (OutputPrefix (config (spl st))) (MaxRecords (config (spl st))) h rs m,
               records_loop env h rs st) of
           (Inr m', (None, st')) \<Rightarrow> same_state m' st'
         | (Inl e, (Some e', st')) \<Rightarrow> True
         | _ \<Rightarrow> False"
  using assms
proof (induction rs arbitrary: m st)
  case Nil
  then show ?case by simp
next
  case (Cons x rs)
  show ?case
  proof (cases x)
    case (Failed c)
    then show ?thesis by simp
  next
    case (Record r)
    note b = body_sim[OF Cons.prems, of env h r]
    show ?thesis
    proof (cases "loop_body env h r st")
      case (Inl a)
      with b show ?thesis
        by (cases a; cases "min_body env (OutputPrefix (config (spl st))) (MaxRecords (config (spl st))) h r m")
           (simp_all add: Record agree_def)
    next
      case (Inr st1)
      with b obtain m1 where
        mb: "min_body env (OutputPrefix (config (spl st))) (MaxRecords (config (spl st))) h r m = Inr m1"
        and s1: "same_state m1 st1" and c1: "config (spl st1) = config (spl st)"
        by (cases "min_body env (OutputPrefix (config (spl st))) (MaxRecords (config (spl st))) h r m")
           (auto simp: agree_def)
      from Cons.prems(2) c1 have "min_cfg (config (spl st1))" by simp
      from Cons.IH[OF s1 this] show ?thesis by (simp add: Record Inr mb c1)
    qed
  qed
qed

text \<open>
  As stated, claim C9 says that \<open>splitCSV\<close> leaves the same files as \<open>Split\<close> with the
  comma, skip-empty enabled and the current directory. The two read differently:
  \<open>Split\<close> sets \<open>LazyQuotes\<close> and \<open>TrimLeadingSpace\<close>, \<open>splitCSV\<close> does not. \<open>spaced\<close> is
  the file with the two lines \<open>a,b\<close> and \<open> 1, 2\<close>: both runs complete, and the data
  record keeps its blanks in the file of \<open>splitCSV\<close> and loses them in the file of
  \<open>Split\<close>.
\<close>

theorem minimal_differs_counterexample:
  "map_option (\<lambda>fs. fs (OutPath ''.'' ''out'' 1))
     (splitCSV_files (file_env spaced) ''in.csv'' ''out'' 2 no_files) =
     Some (Some [(44, [''a'', ''b'']), (44, ['' 1'', '' 2''])]) \<and>
   run_error (file_env spaced) (sample_cfg 2 True) no_files = None \<and>
   run_files (file_env spaced) (sample_cfg 2 True) no_files (OutPath ''.'' ''out'' 1) =
     Some [(44, [''a'', ''b'']), (44, [''1'', ''2''])]"
  by code_simp

text \<open>
  Claim C9, amended. For an input that the reader of \<open>splitCSV\<close> (strict quotes, no
  trimming) and the reader of \<open>Split\<close> (lenient quotes, leading white space trimmed)
  read alike, \<open>splitCSV\<close> completes exactly when \<open>Split\<close> with the comma, skip-empty
  enabled, the current directory and the same prefix and limit completes, and then
  both leave the same files. (A header has at least one field, as every record of
  \<open>encoding/csv\<close> has.)
\<close>

theorem minimal_agrees_when_readers_agree:
  assumes "os_Open env (InputPath cfg) = Inr f"
    and "f NewReader = f (createReader (NewCSVSplitter cfg))"
    and "\<forall>rest. f NewReader \<noteq> Record [] # rest"
    and "SkipEmpty cfg" and "Delimiter cfg = 44" and "OutputDir cfg = ''.''"
  shows "(splitCSV_files env (InputPath cfg) (OutputPrefix cfg) (MaxRecords cfg) w = None \<longleftrightarrow>
            run_error env cfg w \<noteq> None) \<and>
         (run_error env cfg w = None \<longrightarrow>
            splitCSV_files env (InputPath cfg) (OutputPrefix cfg) (MaxRecords cfg) w =
              Some (run_files env cfg w))"
proof -
  let ?s = "NewCSVSplitter cfg"
  let ?min = "splitCSV_files env (InputPath cfg) (OutputPrefix cfg) (MaxRecords cfg) w"
  have o: "openInputFile env ?s = Inr f"
    using assms(1) by (simp add: openInputFile_def NewCSVSplitter_def)
  have cfg: "config ?s = cfg" by (simp add: NewCSVSplitter_def)
  have mc: "min_cfg cfg" using assms(4-6) by (simp add: min_cfg_def)
  have goal: "?min = (if run_error env cfg w = None then Some (run_files env cfg w) else None)"
  proof (cases "f NewReader")
    case Nil
    with assms(1,2) o show ?thesis
      by (simp add: splitCSV_files_def splitCSV_def run_error_def Split_def)
  next
    case (Cons x rest)
    show ?thesis
    proof (cases x)
      case (Failed c)
      with Cons assms(1,2) o show ?thesis
        by (simp add: splitCSV_files_def splitCSV_def run_error_def Split_def)
    next
      case (Record h)
      with Cons assms(3) have hne: "h \<noteq> []" by auto
      from Cons Record assms(2) have rd: "f (createReader ?s) = Record h # rest" by simp
      with hne have rh: "readHeader (f (createReader ?s)) = Inr (h, rest)" by simp
      let ?w1 = "Printf (Verbose (config ?s)) (MaxRecordsMsg (MaxRecords (config ?s)))
                (Printf (Verbose (config ?s)) (StartMsg (InputPath (config ?s))) w)"
      let ?lv0 = "\<lparr>part = 1, mRecordCount = 0, mWriter = None, mOutFile = None\<rparr>"
      obtain e1 lv1 w1 where a0: "min_createNewFile env (OutputPrefix (config ?s)) h ?lv0 w = (e1, lv1, w1)"
        by (cases "min_createNewFile env (OutputPrefix (config ?s)) h ?lv0 w") auto
      then have a: "min_createNewFile env (OutputPrefix cfg) h ?lv0 w = (e1, lv1, w1)"
        by (simp add: cfg)
      obtain e2 s2 w2 where b: "createNewFile env h ?s ?w1 = (e2, s2, w2)"
        by (cases "createNewFile env h ?s ?w1") auto
      have "case (min_createNewFile env (OutputPrefix (config ?s)) h ?lv0 w, createNewFile env h ?s ?w1) of
           ((None, lv', w'), (None, s', wld')) \<Rightarrow>
              part lv' = partNumber s' \<and> mRecordCount lv' = 0 \<and> mWriter lv' = writer s' \<and>
              files w' = files wld' \<and> config s' = config ?s
         | ((Some e, lv', w'), (Some e', s', wld')) \<Rightarrow> True
         | _ \<Rightarrow> False"
        by (rule createNewFile_sim) (simp_all add: NewCSVSplitter_def Printf_def assms(5,6))
      note cs = this[unfolded a0 b, simplified]
      show ?thesis
      proof (cases e2)
        case (Some err)
        with cs obtain err1 where "e1 = Some err1" by (cases e1) auto
        with Some a b o rh assms(1) Cons Record show ?thesis
          by (simp add: splitCSV_files_def splitCSV_def run_error_def Split_def Let_def)
      next
        case None
        with cs have e1: "e1 = None" by (cases e1) auto
        let ?st = "\<lparr>spl = s2, world = w2, recordCount = 0, totalRecords = 0\<rparr>"
        from cs None e1 have ss: "same_state (lv1, w1) ?st" and c2: "config (spl ?st) = cfg"
          by (simp_all add: same_state_def cfg)
        from mc c2 have "min_cfg (config (spl ?st))" by simp
        note ls = loop_sim[OF ss this, of env h rest, unfolded c2]
        obtain e3 st3 where l: "records_loop env h rest ?st = (e3, st3)"
          by (cases "records_loop env h rest ?st") auto
        note u = Split_unfold[OF o rh b[unfolded None] l]
        show ?thesis
        proof (cases e3)
          case (Some err)
          with ls l obtain err1 where
            "min_loop env (OutputPrefix cfg) (MaxRecords cfg) h rest (lv1, w1) = Inl err1"
            by (cases "min_loop env (OutputPrefix cfg) (MaxRecords cfg) h rest (lv1, w1)") auto
          with Some a e1 assms(1) Cons Record u show ?thesis
            by (simp add: splitCSV_files_def splitCSV_def run_error_def)
        next
          case None
          with ls l obtain m3 where
            ml: "min_loop env (OutputPrefix cfg) (MaxRecords cfg) h rest (lv1, w1) = Inr m3"
            and s3: "same_state m3 st3"
            by (cases "min_loop env (OutputPrefix cfg) (MaxRecords cfg) h rest (lv1, w1)") auto
          obtain lv3 w3 where m3: "m3 = (lv3, w3)" by (cases m3) auto
          from s3 m3 have "files w3 = files (world st3)" by (simp add: same_state_def)
          with None a e1 assms(1) Cons Record u ml m3 show ?thesis
            by (simp add: splitCSV_files_def splitCSV_def run_error_def run_files_def Printf_def)
        qed
      qed
    qed
  qed
  show ?thesis unfolding goal by simp
qed

theorem minimal_agrees_when_readers_agree_witness:
  "splitCSV_files (sample_env people) ''in.csv'' ''out'' 2 no_files =
     Some (run_files (sample_env people) (sample_cfg 2 True) no_files) \<and>
   run_error (sample_env people) (sample_cfg 2 True) no_files = None"
proof -
  have a: "os_Open (sample_env people) (InputPath (sample_cfg 2 True)) = Inr (\<lambda>rd. people)"
    by (simp add: sample_env_def)
  have b: "(\<lambda>rd. people) NewReader = (\<lambda>rd. people) (createReader (NewCSVSplitter (sample_cfg 2 True)))"
    by simp
  have c: "\<forall>rest. (\<lambda>rd. people) NewReader \<noteq> Record [] # rest" by (simp add: people_def)
  have d: "SkipEmpty (sample_cfg 2 True)" "Delimiter (sample_cfg 2 True) = 44"
    "OutputDir (sample_cfg 2 True) = ''.''"
    by (simp_all add: sample_cfg_def)
  have e: "run_error (sample_env people) (sample_cfg 2 True) no_files = None" by code_simp
  from minimal_agrees_when_readers_agree[OF a b c d, of no_files] e
  have "splitCSV_files (sample_env people) (InputPath (sample_cfg 2 True))
          (OutputPrefix (sample_cfg 2 True)) (MaxRecords (sample_cfg 2 True)) no_files =
        Some (run_files (sample_env people) (sample_cfg 2 True) no_files)"
    by blast
  then show ?thesis using e by (simp add: sample_cfg_def)
qed

section \<open>Lenient quotes\<close>

text \<open>
  \<open>lazy_ok\<close>: with \<open>LazyQuotes\<close> the parse of a record returns no error, and a parse
  without error returns at least one field.
\<close>

definition lazy_ok :: "Reader \<Rightarrow> fields \<times> cause option \<times> string \<Rightarrow> bool" where
  "lazy_ok rd res \<longleftrightarrow>
     (LazyQuotes rd \<longrightarrow> fst (snd res) = None) \<and> (fst (snd res) = None \<longrightarrow> fst res \<noteq> [])"

lemma parse_lazy_ok:
  "lazy_ok rd (parseField rd fs line0 inp)"
  "lazy_ok rd (quotedField rd fs buf line0 inp)"
proof (induction rd fs line0 inp and rd fs buf line0 inp rule: parseField_quotedField.induct)
  case (1 rd fs line0 inp)
  define line where "line = (if TrimLeadingSpace rd then trimLeadingSpace line0 else line0)"
  define i where "i = IndexRune line (Comma rd)"
  define field where "field = (case i of Some k \<Rightarrow> take k line
                              | None \<Rightarrow> take (length line - lengthNL line) line)"
  note IH1 = 1(1)[OF line_def _ i_def field_def]
  note IH2 = 1(2)[OF line_def]
  show ?case
  proof (cases "line = [] \<or> hd line \<noteq> CHR 0x22")
    case True
    note unq = this
    show ?thesis
    proof (cases "\<not> LazyQuotes rd \<and> IndexByte (CHR 0x22) field \<noteq> None")
      case True
      with unq show ?thesis
        by (subst parseField.simps) (simp add: Let_def line_def[symmetric] i_def[symmetric] field_def[symmetric] lazy_ok_def)
    next
      case False
      note ok = this
      show ?thesis
      proof (cases i)
        case None
        have f: "field = take (length line - lengthNL line) line" by (simp add: field_def None)
        from unq ok None show ?thesis
          by (subst parseField.simps)
             (simp add: Let_def line_def[symmetric] i_def[symmetric] f lazy_ok_def)
      next
        case (Some k)
        have f: "field = take k line" by (simp add: field_def Some)
        from IH1[OF unq ok Some] unq ok Some show ?thesis
          by (subst parseField.simps)
             (simp add: Let_def line_def[symmetric] i_def[symmetric] f lazy_ok_def)
      qed
    qed
  next
    case False
    from IH2[OF False] False show ?thesis
      by (subst parseField.simps) (simp add: Let_def line_def[symmetric])
  qed
next
  case (2 rd fs buf line0 inp)
  show ?case
  proof (cases "IndexByte (CHR 0x22) line0")
    case None
    show ?thesis
    proof (cases "line0 = []")
      case True
      with None show ?thesis by (subst quotedField.simps) (simp add: lazy_ok_def)
    next
      case False
      note ne = this
      show ?thesis
      proof (cases "readLine inp")
        case None
        note eof = this
        from 2(1)[OF \<open>IndexByte (CHR 0x22) line0 = None\<close> ne eof]
        show ?thesis
          using \<open>IndexByte (CHR 0x22) line0 = None\<close> ne eof
          by (subst quotedField.simps) simp
      next
        case (Some x)
        obtain line rest where x: "x = (line, rest)" by (cases x) auto
        from 2(2)[OF \<open>IndexByte (CHR 0x22) line0 = None\<close> ne Some x[symmetric]]
          Some x
        show ?thesis
          using \<open>IndexByte (CHR 0x22) line0 = None\<close> ne
          by (subst quotedField.simps) simp
      qed
    qed
  next
    case (Some i)
    define buf1 where "buf1 = buf @ take i line0"
    define line where "line = drop (i + 1) line0"
    note IHa = 2(3)[OF Some buf1_def line_def]
    note IHb = 2(4)[OF Some buf1_def line_def]
    note IHc = 2(5)[OF Some buf1_def line_def]
    show ?thesis
    proof (cases "HasPrefix line [CHR 0x22]")
      case True
      from IHa[OF True] True Some show ?thesis
        by (subst quotedField.simps, simp only: option.case Let_def, fold buf1_def line_def, simp add: lazy_ok_def)
    next
      case False
      note nq = this
      show ?thesis
      proof (cases "HasPrefix line (EncodeRune (Comma rd))")
        case True
        from IHb[OF nq True] nq True Some show ?thesis
          by (subst quotedField.simps, simp only: option.case Let_def, fold buf1_def line_def, simp add: lazy_ok_def)
      next
        case False
        note nc = this
        show ?thesis
        proof (cases "lengthNL line = length line")
          case True
          with nq nc Some show ?thesis
            by (subst quotedField.simps, simp only: option.case Let_def, fold buf1_def line_def, simp add: lazy_ok_def)
        next
          case False
          note nn = this
          show ?thesis
          proof (cases "LazyQuotes rd")
            case True
            from IHc[OF nq nc nn True] nq nc nn True Some show ?thesis
              by (subst quotedField.simps, simp only: option.case Let_def, fold buf1_def line_def, simp add: lazy_ok_def)
          next
            case False
            with nq nc nn Some show ?thesis
              by (subst quotedField.simps, simp only: option.case Let_def, fold buf1_def line_def, simp add: lazy_ok_def)
          qed
        qed
      qed
    qed
  qed
qed




definition spaced_bytes :: string where
  "spaced_bytes = ''a,b'' @ [CHR 0x0A] @ '' 1, 2'' @ [CHR 0x0A]"



lemma spaced_is_csv:
  "csv_content spaced_bytes NewReader = spaced NewReader"
  "csv_content spaced_bytes (createReader (NewCSVSplitter (sample_cfg 2 True))) =
     spaced (createReader (NewCSVSplitter (sample_cfg 2 True)))"
  by code_simp+




section \<open>The reader and the splitter together\<close>

text \<open>
  A record of the reader has at least one field, so a header never is empty. The
  scenario of the specification, from the bytes of the input to the records of the
  parts: three data records and the limit 2 give a part with two of them and a part
  with the third.
\<close>

definition people_bytes :: string where
  "people_bytes =
     ''name,age'' @ [CHR 0x0A] @ ''Alice,30'' @ [CHR 0x0A] @ ''Bob,25'' @ [CHR 0x0A] @
     ''Carol,40'' @ [CHR 0x0A]"

lemma ReadAll_records_nonempty:
  "Record [] \<notin> set (ReadAll rd n inp)"
proof (induction rd n inp rule: ReadAll.induct)
  case (1 rd n inp)
  show ?case
  proof (cases "readLine inp")
    case None
    then show ?thesis by (subst ReadAll.simps) simp
  next
    case (Some x)
    obtain line rest where x: "x = (line, rest)" by (cases x) auto
    show ?thesis
    proof (cases "length line = lengthNL line")
      case True
      from 1(1)[OF Some x[symmetric] True] Some x True show ?thesis
        by (subst ReadAll.simps) simp
    next
      case False
      obtain fs e inp' where p: "parseField rd [] line rest = (fs, e, inp')"
        by (cases "parseField rd [] line rest") auto
      from parse_lazy_ok(1)[of rd "[]" line rest] p
      have ok: "e = None \<longrightarrow> fs \<noteq> []" by (simp add: lazy_ok_def)
      show ?thesis
      proof (cases e)
        case (Some err)
        with \<open>readLine inp = Some x\<close> x False p show ?thesis
          by (subst ReadAll.simps) simp
      next
        case None
        show ?thesis
        proof (cases "n > 0 \<and> length fs \<noteq> n")
          case True
          with None \<open>readLine inp = Some x\<close> x False p show ?thesis
            by (subst ReadAll.simps) simp
        next
          case f: False
          have "(fs, None, inp') = parseField rd [] line rest" "(None, inp') = (None, inp')"
            using p None by simp_all
          from 1(2)[OF \<open>readLine inp = Some x\<close> x[symmetric] False this(1) this(2) refl f]
            ok None \<open>readLine inp = Some x\<close> x False p f
          show ?thesis
            by (subst ReadAll.simps) auto
        qed
      qed
    qed
  qed
qed

lemma csv_content_header_nonempty: "csv_content bytes rd \<noteq> Record [] # rest"
proof
  assume "csv_content bytes rd = Record [] # rest"
  then have "Record [] \<in> set (csv_content bytes rd)" by simp
  then show False using ReadAll_records_nonempty[of rd 0 bytes]
    by (simp add: csv_content_def split: if_splits)
qed

lemma scenario_people:
  "csv_content people_bytes (createReader (NewCSVSplitter (sample_cfg 2 True))) = people"
  "run_parts (file_env (csv_content people_bytes)) (sample_cfg 2 True) no_files =
     [[[''name'', ''age''], [''Alice'', ''30''], [''Bob'', ''25'']],
      [[''name'', ''age''], [''Carol'', ''40'']]]"
  by code_simp+

section \<open>The total counter and the lines of the input\<close>

text \<open>
  The lines of an input, as an editor counts them: the bytes between line feeds.
\<close>

fun physical_lines :: "string \<Rightarrow> string list" where
  "physical_lines [] = []"
| "physical_lines (c # cs) =
     (if c = CHR 0x0A then [] # physical_lines cs
      else (case physical_lines cs of [] \<Rightarrow> [[c]] | l # ls \<Rightarrow> (c # l) # ls))"

definition blank_line_bytes :: string where
  "blank_line_bytes =
     ''name,age'' @ [CHR 0x0A] @ [CHR 0x0A] @ ''Bob,25'' @ [CHR 0x0A] @ ''x'' @ [CHR 0x0A]"

text \<open>
  As stated, claim C10 concludes that a reported line number always is the physical
  position of the record in the input. The counter counts the records the reader
  delivers, and the reader skips blank lines (and joins the lines of a quoted field that
  spans several): in the input below the second line is blank, the row \<open>x\<close> on line 4
  has one field where the header has two, and \<open>Split\<close> reports it as line 3, the line
  of the record before it.
\<close>

theorem physical_line_counterexample:
  "physical_lines blank_line_bytes = [''name,age'', [], ''Bob,25'', ''x''] \<and>
   csv_content blank_line_bytes (createReader (NewCSVSplitter (sample_cfg 2 True))) =
     [Record [''name'', ''age''], Record [''Bob'', ''25''], Failed ErrFieldCount] \<and>
   run_error (file_env (csv_content blank_line_bytes)) (sample_cfg 2 True) no_files =
     Some (RecordReadError 3 ErrFieldCount) \<and>
   physical_lines blank_line_bytes ! (3 - 1) = ''Bob,25'' \<and>
   physical_lines blank_line_bytes ! (4 - 1) = ''x''"
  by code_simp

text \<open>
  Claim C10, amended. Every pass through the loop body that does not return adds one to
  \<open>totalRecords\<close>, whether the record is written or discarded by \<open>skip-empty\<close>; after \<open>N\<close>
  records the counter has grown by \<open>N\<close>. So, where no output operation fails, a parse
  failure after \<open>N\<close> data records is reported with line \<open>N + 2\<close>, however many of the
  \<open>N\<close> records were discarded: the number is the position of the failing record among
  the records the reader delivers, the header being number 1. As the input above shows,
  this need not be its line in the input.
\<close>

theorem totalRecords_counts_skipped_records:
  assumes "os_Open env (InputPath cfg) = Inr f"
    and "f (createReader (NewCSVSplitter cfg)) = Record header # map Record recs @ Failed c # post"
    and "header \<noteq> []" and "healthy env"
  shows "run_error env cfg w = Some (RecordReadError (length recs + 2) c) \<and>
         (\<forall>r st st'. loop_body env header r st = Inr st' \<longrightarrow>
            totalRecords st' = totalRecords st + 1) \<and>
         (\<forall>st st'. records_loop env header (map Record recs) st = (None, st') \<longrightarrow>
            totalRecords st' = totalRecords st + length recs)"
proof -
  have 1: "run_error env cfg w = Some (RecordReadError (length recs + 2) c)"
    by (rule run_error_at_failure[OF assms])
  have 2: "\<forall>r st st'. loop_body env header r st = Inr st' \<longrightarrow>
            totalRecords st' = totalRecords st + 1"
    using loop_body_total by blast
  have 3: "\<forall>st st'. records_loop env header (map Record recs) st = (None, st') \<longrightarrow>
            totalRecords st' = totalRecords st + length recs"
    using records_loop_total by blast
  show ?thesis by (intro conjI 1 2 3)
qed

theorem totalRecords_counts_skipped_records_witness:
  "healthy (sample_env blank_then_bad) \<and> SkipEmpty (sample_cfg 2 True) \<and>
   run_error (sample_env blank_then_bad) (sample_cfg 2 True) no_files =
     Some (RecordReadError 4 ErrFieldCount)"
proof -
  have a: "os_Open (sample_env blank_then_bad) (InputPath (sample_cfg 2 True)) = Inr (\<lambda>rd. blank_then_bad)"
    by (simp add: sample_env_def)
  have b: "(\<lambda>rd. blank_then_bad) (createReader (NewCSVSplitter (sample_cfg 2 True))) =
      Record [''name'', ''age''] # map Record [[[], []], [''Bob'', ''25'']] @ Failed ErrFieldCount # []"
    by (simp add: blank_then_bad_def)
  have c: "[''name'', ''age''] \<noteq> []" by simp
  have d: "healthy (sample_env blank_then_bad)" by (simp add: healthy_def sample_env_def)
  have s: "SkipEmpty (sample_cfg 2 True)" by (simp add: sample_cfg_def)
  from totalRecords_counts_skipped_records[OF a b c d, of no_files] d s
  show ?thesis by simp
qed

section \<open>Output through the buffered writer\<close>

text \<open>
  The sections above write through: a record handed to \<open>Writer_Write\<close> is in the file at
  once. The library's \<open>csv.Writer\<close> writes into a \<open>bufio.Writer\<close> of 4096 bytes over the
  file, and the bytes reach the file when the buffer is full or flushed. For a record the
  two differ only in when a failing device is noticed, which is what the line numbers of
  write errors depend on. This section models the writer as the library has it, from
  \<open>bufio.Writer\<close> (\<open>Flush\<close>, \<open>WriteByte\<close>, \<open>WriteRune\<close>, \<open>WriteString\<close>) and
  \<open>csv.Writer\<close> (\<open>Write\<close>, \<open>fieldNeedsQuotes\<close>, \<open>Flush\<close>, with \<open>UseCRLF\<close> unset as the
  program leaves it), and \<open>Split\<close> with its helpers over that writer.

  A device: which input files can be opened and what they hold, which calls of
  \<open>os.Create\<close> fail, and which calls of \<open>Write\<close> on an output file fail, given the number
  of bytes the file holds and the bytes to be written. A write is done whole or not at
  all.
\<close>

record Device =
  dev_Open :: "string \<Rightarrow> cause + csv_file"
  dev_Create :: "path \<Rightarrow> cause option"
  dev_Write :: "path \<Rightarrow> nat \<Rightarrow> string \<Rightarrow> cause option"

text \<open>
  The store: the bytes of every file on the device; for the writer on a file the bytes
  in its buffer (\<open>b.buf[0:b.n]\<close>) and the error it keeps (\<open>b.err\<close>); the standard output;
  and a log of the writes the device refused, which the program does not see.
\<close>

record Store =
  disk :: "path \<Rightarrow> string option"
  pending :: "path \<Rightarrow> string"
  kept_error :: "path \<Rightarrow> cause option"
  console :: "msg list"
  failed_writes :: "(path \<times> cause) list"

type_synonym outcome = "cause option \<times> Store"

definition defaultBufSize :: nat where
  "defaultBufSize = 4096"

definition UTFMax :: nat where
  "UTFMax = 4"

text \<open>
  \<open>(*os.File).Write\<close>, and the operations of \<open>bufio.Writer\<close>. \<open>WriteString\<close> hands a
  string that does not fit to the file directly when the buffer is empty (an \<open>*os.File\<close>
  is an \<open>io.StringWriter\<close>), and otherwise fills the buffer and flushes it.
\<close>

definition File_Write :: "Device \<Rightarrow> path \<Rightarrow> string \<Rightarrow> Store \<Rightarrow> outcome" where
  "File_Write dev p b st =
     (case disk st p of
        None \<Rightarrow> (Some ErrClosed, st)
      | Some old \<Rightarrow>
          (case dev_Write dev p (length old) b of
             Some e \<Rightarrow> (Some e, st\<lparr>failed_writes := failed_writes st @ [(p, e)]\<rparr>)
           | None \<Rightarrow> (None, st\<lparr>disk := (disk st)(p \<mapsto> old @ b)\<rparr>)))"

definition Available :: "Store \<Rightarrow> path \<Rightarrow> nat" where
  "Available st p = defaultBufSize - length (pending st p)"

definition Buffered :: "Store \<Rightarrow> path \<Rightarrow> nat" where
  "Buffered st p = length (pending st p)"

definition copy_in :: "path \<Rightarrow> string \<Rightarrow> Store \<Rightarrow> Store" where
  "copy_in p b st = st\<lparr>pending := (pending st)(p := pending st p @ b)\<rparr>"

definition Flush :: "Device \<Rightarrow> path \<Rightarrow> Store \<Rightarrow> outcome" where
  "Flush dev p st =
     (case kept_error st p of
        Some e \<Rightarrow> (Some e, st)
      | None \<Rightarrow>
          if Buffered st p = 0 then (None, st)
          else
            (case File_Write dev p (pending st p) st of
               (Some e, st1) \<Rightarrow> (Some e, st1\<lparr>kept_error := (kept_error st1)(p := Some e)\<rparr>)
             | (None, st1) \<Rightarrow> (None, st1\<lparr>pending := (pending st1)(p := [])\<rparr>)))"

definition WriteByte :: "Device \<Rightarrow> path \<Rightarrow> char \<Rightarrow> Store \<Rightarrow> outcome" where
  "WriteByte dev p c st =
     (case kept_error st p of
        Some e \<Rightarrow> (Some e, st)
      | None \<Rightarrow>
          if Available st p \<le> 0
          then (case Flush dev p st of
                  (Some e, st1) \<Rightarrow> (Some e, st1)
                | (None, st1) \<Rightarrow> (None, copy_in p [c] st1))
          else (None, copy_in p [c] st))"

function WriteString :: "Device \<Rightarrow> path \<Rightarrow> string \<Rightarrow> Store \<Rightarrow> outcome" where
  "WriteString dev p s st =
     (if length s > Available st p \<and> kept_error st p = None
      then
        (if Buffered st p = 0
         then (case File_Write dev p s st of
                 (Some e, st1) \<Rightarrow>
                   WriteString dev p s (st1\<lparr>kept_error := (kept_error st1)(p := Some e)\<rparr>)
               | (None, st1) \<Rightarrow> WriteString dev p [] st1)
         else
           (let n = Available st p
            in WriteString dev p (drop n s) (snd (Flush dev p (copy_in p (take n s) st)))))
      else
        (case kept_error st p of
           Some e \<Rightarrow> (Some e, st)
         | None \<Rightarrow> (None, copy_in p s st)))"
  by pat_completeness auto

lemma File_Write_frame:
  "File_Write dev p b st = (r, st1) \<Longrightarrow>
     pending st1 = pending st \<and> kept_error st1 = kept_error st \<and> console st1 = console st"
  by (auto simp: File_Write_def split: option.splits)

lemma Flush_result:
  assumes "Flush dev p st = (r, st1)" "kept_error st p = None"
  shows "(r = None \<and> pending st1 p = [] \<and> kept_error st1 p = None) \<or>
         (r \<noteq> None \<and> kept_error st1 p = r \<and> pending st1 p = pending st p)"
  using assms
  by (auto simp: Flush_def Buffered_def split: option.splits if_splits prod.splits
      dest!: File_Write_frame)

definition unsettled :: "Store \<Rightarrow> path \<Rightarrow> string \<Rightarrow> nat" where
  "unsettled st p s =
     2 * length s + (if pending st p = [] then 0 else 1) + (if kept_error st p = None then 1 else 0)"

definition WriteString_size :: "Device \<times> path \<times> string \<times> Store \<Rightarrow> nat" where
  "WriteString_size = (\<lambda>(dev, p, s, st). unsettled st p s)"

lemma WriteString_direct_ok:
  assumes "Available st p < length s" "Buffered st p = 0" "(None, y) = File_Write dev p s st"
  shows "WriteString_size (dev, p, [], y) < WriteString_size (dev, p, s, st)"
proof -
  from assms(3) have "pending y = pending st" "kept_error y = kept_error st"
    using File_Write_frame[of dev p s st None y] by auto
  moreover from assms(1) have "s \<noteq> []" by auto
  ultimately show ?thesis
    using assms(2) by (cases s) (simp_all add: unsettled_def Buffered_def WriteString_size_def)
qed

lemma WriteString_direct_failed:
  assumes "kept_error st p = None" "(Some e, y) = File_Write dev p s st"
  shows "WriteString_size (dev, p, s, y\<lparr>kept_error := (kept_error y)(p := Some e)\<rparr>)
           < WriteString_size (dev, p, s, st)"
proof -
  from assms(2) have "pending y = pending st" "kept_error y = kept_error st"
    using File_Write_frame[of dev p s st "Some e" y] by auto
  with assms(1) show ?thesis by (simp add: unsettled_def WriteString_size_def)
qed

lemma WriteString_flushed:
  assumes "kept_error st p = None" "Buffered st p \<noteq> 0"
  shows "WriteString_size (dev, p, drop n s, snd (Flush dev p (copy_in p (take n s) st)))
           < WriteString_size (dev, p, s, st)"
proof -
  let ?st0 = "copy_in p (take n s) st"
  obtain r st1 where f: "Flush dev p ?st0 = (r, st1)" by (cases "Flush dev p ?st0") auto
  have k: "kept_error ?st0 p = None" using assms by (simp add: copy_in_def)
  have ne: "pending ?st0 p \<noteq> []" using assms by (simp add: copy_in_def Buffered_def)
  from Flush_result[OF f k] ne assms
  have "unsettled st1 p (drop n s) < unsettled st p s"
    by (auto simp: unsettled_def Buffered_def copy_in_def)
  then show ?thesis by (simp add: f WriteString_size_def)
qed

termination WriteString
  by (relation "measure WriteString_size")
     (auto intro: WriteString_direct_ok WriteString_direct_failed WriteString_flushed)

declare WriteString.simps [simp del]

definition WriteRune :: "Device \<Rightarrow> path \<Rightarrow> rune \<Rightarrow> Store \<Rightarrow> outcome" where
  "WriteRune dev p r st =
     (if r < 0x80 then WriteByte dev p (char_of r) st
      else
        (case kept_error st p of
           Some e \<Rightarrow> (Some e, st)
         | None \<Rightarrow>
             if Available st p < UTFMax
             then (case Flush dev p st of
                     (Some e, st1) \<Rightarrow> (Some e, st1)
                   | (None, st1) \<Rightarrow>
                       if Available st1 p < UTFMax then WriteString dev p (EncodeRune r) st1
                       else (None, copy_in p (EncodeRune r) st1))
             else (None, copy_in p (EncodeRune r) st)))"

text \<open>
  \<open>csv.Writer.Write\<close>: the fields, separated by the delimiter, then a line feed. A field
  is quoted when it holds the delimiter, a quote, a carriage return or a line feed, when
  it starts with a space, or when it is a backslash and a dot; inside the quotes a quote is
  doubled.
  \<open>and_then\<close> is the \<open>if err != nil { return err }\<close> between two steps.
\<close>

definition and_then :: "outcome \<Rightarrow> (Store \<Rightarrow> outcome) \<Rightarrow> outcome" where
  "and_then r k = (case r of (Some e, st) \<Rightarrow> (Some e, st) | (None, st) \<Rightarrow> k st)"

definition fieldNeedsQuotes :: "rune \<Rightarrow> string \<Rightarrow> bool" where
  "fieldNeedsQuotes comma field =
     (if field = [] then False
      else if field = [CHR 0x5C, CHR 0x2E] then True
      else if (if comma < 0x80
               then IndexByte (CHR 0x0A) field \<noteq> None \<or> IndexByte (CHR 0x0D) field \<noteq> None \<or>
                    IndexByte (CHR 0x22) field \<noteq> None \<or> IndexByte (char_of comma) field \<noteq> None
               else IndexRune field comma \<noteq> None \<or> IndexByte (CHR 0x22) field \<noteq> None \<or>
                    IndexByte (CHR 0x0D) field \<noteq> None \<or> IndexByte (CHR 0x0A) field \<noteq> None)
      then True
      else space_width field \<noteq> 0)"

definition special :: "char \<Rightarrow> bool" where
  "special c \<longleftrightarrow> c = CHR 0x22 \<or> c = CHR 0x0D \<or> c = CHR 0x0A"

function writeQuoted :: "Device \<Rightarrow> path \<Rightarrow> string \<Rightarrow> Store \<Rightarrow> outcome" where
  "writeQuoted dev p field st =
     (if length field > 0
      then
        (let i = length (takeWhile (\<lambda>c. \<not> special c) field);
             field1 = drop i field
         in and_then (WriteString dev p (take i field) st)
              (\<lambda>st1. if length field1 > 0
                      then and_then
                             (if hd field1 = CHR 0x22 then WriteString dev p [CHR 0x22, CHR 0x22] st1
                              else WriteByte dev p (hd field1) st1)
                             (writeQuoted dev p (drop 1 field1))
                      else writeQuoted dev p field1 st1))
      else (None, st))"
  by pat_completeness auto

termination writeQuoted
  by (relation "measure (\<lambda>(dev, p, field, st). length field)") auto

declare writeQuoted.simps [simp del]

definition writeField :: "Device \<Rightarrow> Writer \<Rightarrow> string \<Rightarrow> Store \<Rightarrow> outcome" where
  "writeField dev w field st =
     (if \<not> fieldNeedsQuotes (wComma w) field then WriteString dev (dest w) field st
      else and_then (WriteByte dev (dest w) (CHR 0x22) st)
             (\<lambda>st1. and_then (writeQuoted dev (dest w) field st1)
                (WriteByte dev (dest w) (CHR 0x22))))"

fun writeFields :: "Device \<Rightarrow> Writer \<Rightarrow> nat \<Rightarrow> fields \<Rightarrow> Store \<Rightarrow> outcome" where
  "writeFields dev w n [] st = (None, st)"
| "writeFields dev w n (field # rest) st =
     and_then (if n > 0 then WriteRune dev (dest w) (wComma w) st else (None, st))
       (\<lambda>st1. and_then (writeField dev w field st1) (writeFields dev w (n + 1) rest))"

definition Writer_Write_buffered :: "Device \<Rightarrow> Writer \<Rightarrow> fields \<Rightarrow> Store \<Rightarrow> outcome" where
  "Writer_Write_buffered dev w rec st =
     (if \<not> validDelim (wComma w) then (Some ErrInvalidDelim, st)
      else and_then (writeFields dev w 0 rec st) (WriteByte dev (dest w) (CHR 0x0A)))"

definition Writer_Flush :: "Device \<Rightarrow> Writer \<Rightarrow> Store \<Rightarrow> Store" where
  "Writer_Flush dev w st = snd (Flush dev (dest w) st)"

definition Print :: "bool \<Rightarrow> msg \<Rightarrow> Store \<Rightarrow> Store" where
  "Print verbose m st = (if verbose then st\<lparr>console := console st @ [m]\<rparr> else st)"

text \<open>
  The splitter over this writer. \<open>closeCurrentFile\<close> calls \<open>Flush\<close> and \<open>Close\<close> and looks
  at the result of neither. \<open>new_file\<close> is \<open>os.Create\<close> followed by \<open>csv.NewWriter\<close>: an
  empty file and an empty buffer.
\<close>

definition closeCurrentFile_buffered :: "Device \<Rightarrow> CSVSplitter \<Rightarrow> Store \<Rightarrow> CSVSplitter \<times> Store" where
  "closeCurrentFile_buffered dev s st =
     (let (s1, st1) = (case writer s of
                         Some w \<Rightarrow> (s\<lparr>writer := None\<rparr>, Writer_Flush dev w st)
                       | None \<Rightarrow> (s, st))
      in if outFile s1 \<noteq> None then (s1\<lparr>outFile := None\<rparr>, st1) else (s1, st1))"

definition new_file :: "path \<Rightarrow> Store \<Rightarrow> Store" where
  "new_file p st =
     st\<lparr>disk := (disk st)(p \<mapsto> []), pending := (pending st)(p := []),
        kept_error := (kept_error st)(p := None)\<rparr>"

definition createNewFile_buffered ::
  "Device \<Rightarrow> fields \<Rightarrow> CSVSplitter \<Rightarrow> Store \<Rightarrow> error option \<times> CSVSplitter \<times> Store" where
  "createNewFile_buffered dev header s st =
     (let (s1, st1) = closeCurrentFile_buffered dev s st;
          filepath = OutPath (OutputDir (config s1)) (OutputPrefix (config s1)) (partNumber s1)
      in case dev_Create dev filepath of
           Some e \<Rightarrow> (Some (OutputCreateError filepath e), s1, st1)
         | None \<Rightarrow>
             (let st2 = new_file filepath st1;
                  w = \<lparr>wComma = Delimiter (config s1), dest = filepath\<rparr>;
                  s2 = s1\<lparr>outFile := Some filepath, writer := Some w\<rparr>
              in case Writer_Write_buffered dev w header st2 of
                   (Some e, st3) \<Rightarrow>
                     (let (s3, st4) = closeCurrentFile_buffered dev s2 st3
                      in (Some (HeaderWriteError filepath e), s3, st4))
                 | (None, st3) \<Rightarrow>
                     (None, s2\<lparr>partNumber := partNumber s2 + 1\<rparr>,
                      Print (Verbose (config s2)) (CreatedMsg filepath) st3)))"

text \<open>
  The state inside the loop, and the body of the loop in its three steps: count the
  record and skip it if it is empty; start a new file if the part is full; write.
\<close>

record Session =
  splitter :: CSVSplitter
  store :: Store
  in_part :: nat
  total_read :: nat

definition rotate_if_full :: "Device \<Rightarrow> fields \<Rightarrow> Session \<Rightarrow> (error \<times> Session) + Session" where
  "rotate_if_full dev header ss =
     (if int (in_part ss) \<ge> MaxRecords (config (splitter ss))
      then (case createNewFile_buffered dev header (splitter ss) (store ss) of
              (Some e, s', st') \<Rightarrow> Inl (e, ss\<lparr>splitter := s', store := st'\<rparr>)
            | (None, s', st') \<Rightarrow> Inr (ss\<lparr>splitter := s', store := st', in_part := 0\<rparr>))
      else Inr ss)"

definition write_record :: "Device \<Rightarrow> fields \<Rightarrow> Session \<Rightarrow> (error \<times> Session) + Session" where
  "write_record dev rec ss =
     (case writer (splitter ss) of
        None \<Rightarrow> Inl (NilWriterPanic, ss)
      | Some w \<Rightarrow>
          (case Writer_Write_buffered dev w rec (store ss) of
             (Some e, st') \<Rightarrow> Inl (RecordWriteError (total_read ss + 1) e, ss\<lparr>store := st'\<rparr>)
           | (None, st') \<Rightarrow> Inr (ss\<lparr>store := st', in_part := in_part ss + 1\<rparr>)))"

definition loop_body_buffered ::
  "Device \<Rightarrow> fields \<Rightarrow> fields \<Rightarrow> Session \<Rightarrow> (error \<times> Session) + Session" where
  "loop_body_buffered dev header rec ss =
     (let ss1 = ss\<lparr>total_read := total_read ss + 1\<rparr>
      in if SkipEmpty (config (splitter ss1)) \<and> isEmptyRecord rec then Inr ss1
         else (case rotate_if_full dev header ss1 of
                 Inl err \<Rightarrow> Inl err
               | Inr ss2 \<Rightarrow> write_record dev rec ss2))"

fun records_loop_buffered ::
  "Device \<Rightarrow> fields \<Rightarrow> read_result list \<Rightarrow> Session \<Rightarrow> error option \<times> Session" where
  "records_loop_buffered dev header [] ss = (None, ss)"
| "records_loop_buffered dev header (Failed e # rest) ss =
     (Some (RecordReadError (total_read ss + 2) e), ss)"
| "records_loop_buffered dev header (Record rec # rest) ss =
     (case loop_body_buffered dev header rec ss of
        Inl (err, ss') \<Rightarrow> (Some err, ss')
      | Inr ss' \<Rightarrow> records_loop_buffered dev header rest ss')"

text \<open>
  \<open>announce\<close> prints the two messages at the start, \<open>finish\<close> is what follows the loop:
  the last message of a run that completed and, on every path, the deferred
  \<open>closeCurrentFile\<close>.
\<close>

definition finish :: "Device \<Rightarrow> error option \<times> Session \<Rightarrow> error option \<times> CSVSplitter \<times> Store" where
  "finish dev r =
     (case r of
        (Some e, ss) \<Rightarrow>
          (let (s', st') = closeCurrentFile_buffered dev (splitter ss) (store ss)
           in (Some e, s', st'))
      | (None, ss) \<Rightarrow>
          (let st1 = Print (Verbose (config (splitter ss))) (ProcessedMsg (total_read ss)) (store ss);
               (s', st') = closeCurrentFile_buffered dev (splitter ss) st1
           in (None, s', st')))"

definition announce :: "Config \<Rightarrow> Store \<Rightarrow> Store" where
  "announce cfg st =
     Print (Verbose cfg) (MaxRecordsMsg (MaxRecords cfg))
       (Print (Verbose cfg) (StartMsg (InputPath cfg)) st)"

definition Split_buffered ::
  "Device \<Rightarrow> CSVSplitter \<Rightarrow> Store \<Rightarrow> error option \<times> CSVSplitter \<times> Store" where
  "Split_buffered dev s st =
     (case dev_Open dev (InputPath (config s)) of
        Inl e \<Rightarrow> (Some (InputOpenError (InputPath (config s)) e), s, st)
      | Inr file \<Rightarrow>
          (case readHeader (file (createReader s)) of
             Inl e \<Rightarrow> (Some e, s, st)
           | Inr (header, rest) \<Rightarrow>
               (case createNewFile_buffered dev header s (announce (config s) st) of
                  (Some e, s1, st2) \<Rightarrow> (Some e, s1, st2)
                | (None, s1, st2) \<Rightarrow>
                    finish dev (records_loop_buffered dev header rest
                      \<lparr>splitter = s1, store = st2, in_part = 0, total_read = 0\<rparr>))))"

definition run_error_buffered :: "Device \<Rightarrow> Config \<Rightarrow> Store \<Rightarrow> error option" where
  "run_error_buffered dev cfg st = fst (Split_buffered dev (NewCSVSplitter cfg) st)"

definition run_store :: "Device \<Rightarrow> Config \<Rightarrow> Store \<Rightarrow> Store" where
  "run_store dev cfg st = snd (snd (Split_buffered dev (NewCSVSplitter cfg) st))"




text \<open>
  Sample devices and inputs: an empty store, a device that refuses every write, one
  that accepts every write, and rows longer than half a buffer.
\<close>

definition empty_store :: Store where
  "empty_store = \<lparr>disk = (\<lambda>p. None), pending = (\<lambda>p. []), kept_error = (\<lambda>p. None), console = [],
     failed_writes = []\<rparr>"


definition sound_device :: "read_result list \<Rightarrow> Device" where
  "sound_device rs =
     \<lparr>dev_Open = (\<lambda>p. Inr (\<lambda>rd. rs)), dev_Create = (\<lambda>p. None), dev_Write = (\<lambda>p n b. None)\<rparr>"


text \<open>
  The bytes \<open>Write\<close> hands to its buffer for a record.
\<close>

fun quoted_bytes :: "string \<Rightarrow> string" where
  "quoted_bytes [] = []"
| "quoted_bytes (c # cs) = (if c = CHR 0x22 then [c, c] else [c]) @ quoted_bytes cs"

definition encode_field :: "rune \<Rightarrow> string \<Rightarrow> string" where
  "encode_field comma field =
     (if fieldNeedsQuotes comma field then [CHR 0x22] @ quoted_bytes field @ [CHR 0x22] else field)"

fun encode_fields :: "rune \<Rightarrow> nat \<Rightarrow> fields \<Rightarrow> string" where
  "encode_fields comma n [] = []"
| "encode_fields comma n (field # rest) =
     (if n > 0 then EncodeRune comma else []) @ encode_field comma field @
     encode_fields comma (n + 1) rest"

definition encode :: "rune \<Rightarrow> fields \<Rightarrow> string" where
  "encode comma rec = encode_fields comma 0 rec @ [CHR 0x0A]"

text \<open>
  On a device that accepts every write, the scenario of the specification leaves the
  bytes of its two parts: what \<open>encode\<close> gives for the records of \<open>scenario_people\<close>.
\<close>

lemma scenario_people_buffered:
  "run_error_buffered (sound_device people) (sample_cfg 2 True) empty_store = None"
  "disk (run_store (sound_device people) (sample_cfg 2 True) empty_store) (OutPath ''.'' ''out'' 1) =
     Some (encode 44 [''name'', ''age''] @ encode 44 [''Alice'', ''30''] @ encode 44 [''Bob'', ''25''])"
  "disk (run_store (sound_device people) (sample_cfg 2 True) empty_store) (OutPath ''.'' ''out'' 2) =
     Some (encode 44 [''name'', ''age''] @ encode 44 [''Carol'', ''40''])"
  "encode 44 [''Alice'', ''30''] = ''Alice,30'' @ [CHR 0x0A]"
  "failed_writes (run_store (sound_device people) (sample_cfg 2 True) empty_store) = []"
  by code_simp+

section \<open>When a write fails\<close>




lemma copy_in_simps [simp]:
  "pending (copy_in p b st) p = pending st p @ b"
  "kept_error (copy_in p b st) = kept_error st"
  "disk (copy_in p b st) = disk st"
  "copy_in p b2 (copy_in p b1 st) = copy_in p (b1 @ b2) st"
  "copy_in p [] st = st"
  by (simp_all add: copy_in_def)





























section \<open>Line numbers of errors\<close>





lemma fst_finish [simp]: "fst (finish dev (e, ss)) = e"
  by (cases e) (simp_all add: finish_def Let_def split: prod.splits)








end
